theory Spec2Isabelle
  imports
    Main
    "HOL-Library.Sublist"
    "HOL-Library.Char_ord"
    "HOL-Library.List_Lexorder"
    "HOL-Library.Multiset"
begin

section \<open>Go strings and the functions of package strings that main.go calls\<close>

text \<open>
  A Go string is a sequence of bytes, here a \<^typ>\<open>char list\<close>. The backslash and the
  quote characters are written by their byte value.
\<close>

abbreviation backslash :: char where
  "backslash \<equiv> CHR 0x5C"

text \<open>\<^verbatim>\<open>strings.Contains(s, substr)\<close>: \<open>substr\<close> occurs somewhere in \<open>s\<close>.\<close>

fun Contains :: "string \<Rightarrow> string \<Rightarrow> bool" where
  "Contains [] substr = (substr = [])"
| "Contains (c # cs) substr = (prefix substr (c # cs) \<or> Contains cs substr)"

text \<open>\<^verbatim>\<open>strings.Cut(s, sep)\<close> for a one-byte separator: the text before the first
  \<open>sep\<close> and the text after it (empty when \<open>sep\<close> does not occur).\<close>

definition Cut :: "string \<Rightarrow> char \<Rightarrow> string \<times> string" where
  "Cut s sep = (takeWhile (\<lambda>c. c \<noteq> sep) s, drop 1 (dropWhile (\<lambda>c. c \<noteq> sep) s))"

text \<open>\<^verbatim>\<open>strings.Join(elems, sep)\<close>.\<close>

fun Join :: "string list \<Rightarrow> string \<Rightarrow> string" where
  "Join [] sep = []"
| "Join [x] sep = x"
| "Join (x # y # xs) sep = x @ sep @ Join (y # xs) sep"

text \<open>
  \<^verbatim>\<open>strings.NewReplacer(old1, new1, old2, new2, ...).Replace(s)\<close>, the generic replacer
  that Go uses when some \<open>old\<close> string is longer than one byte. It scans \<open>s\<close> from left
  to right; at each position \<open>lookup\<close> finds the first pair, in argument order, whose
  \<open>old\<close> string starts there. A match writes \<open>new\<close> and skips \<open>old\<close>; the replaced
  text is not scanned again. Without a match one byte is copied. All \<open>old\<close> strings of
  this program are non-empty; an empty one is never matched here.
\<close>

fun lookup :: "(string \<times> string) list \<Rightarrow> string \<Rightarrow> (string \<times> nat) option" where
  "lookup [] s = None"
| "lookup ((old, new) # ps) s =
     (if old \<noteq> [] \<and> prefix old s then Some (new, length old) else lookup ps s)"

lemma lookup_keylen: "lookup ps s = Some (new, n) \<Longrightarrow> 0 < n \<and> n \<le> length s"
  by (induction ps) (auto split: if_splits simp: prefix_def)

function Replace :: "(string \<times> string) list \<Rightarrow> string \<Rightarrow> string" where
  "Replace ps [] = []"
| "Replace ps (c # cs) =
     (case lookup ps (c # cs) of
        Some (new, keylen) \<Rightarrow> new @ Replace ps (drop keylen (c # cs))
      | None \<Rightarrow> c # Replace ps cs)"
  by pat_completeness auto
termination
  by (relation "measure (\<lambda>(ps, s). length s)") (auto dest: lookup_keylen)

text \<open>\<^verbatim>\<open>strings.ReplaceAll(s, old, new)\<close> for a non-empty \<open>old\<close>: every
  non-overlapping occurrence, leftmost first.\<close>

definition ReplaceAll :: "string \<Rightarrow> string \<Rightarrow> string \<Rightarrow> string" where
  "ReplaceAll s old new = Replace [(old, new)] s"

text \<open>
  \<^verbatim>\<open>strings.TrimSpace(s)\<close> removes all leading and trailing white space, as defined by
  Unicode. On the bytes of a string, a white-space rune is one of the UTF-8 encodings
  below: the six ASCII ones, U+0085, U+00A0, U+1680, U+2000 to U+200A, U+2028, U+2029,
  U+202F, U+205F and U+3000. An invalid or over-long encoding decodes to the
  replacement rune, which is not white space.
\<close>

definition spaces :: "string list" where
  "spaces =
    [[CHR 0x09], [CHR 0x0A], [CHR 0x0B], [CHR 0x0C], [CHR 0x0D], [CHR 0x20],
     [CHR 0xC2, CHR 0x85], [CHR 0xC2, CHR 0xA0],
     [CHR 0xE1, CHR 0x9A, CHR 0x80],
     [CHR 0xE2, CHR 0x80, CHR 0x80], [CHR 0xE2, CHR 0x80, CHR 0x81],
     [CHR 0xE2, CHR 0x80, CHR 0x82], [CHR 0xE2, CHR 0x80, CHR 0x83],
     [CHR 0xE2, CHR 0x80, CHR 0x84], [CHR 0xE2, CHR 0x80, CHR 0x85],
     [CHR 0xE2, CHR 0x80, CHR 0x86], [CHR 0xE2, CHR 0x80, CHR 0x87],
     [CHR 0xE2, CHR 0x80, CHR 0x88], [CHR 0xE2, CHR 0x80, CHR 0x89],
     [CHR 0xE2, CHR 0x80, CHR 0x8A],
     [CHR 0xE2, CHR 0x80, CHR 0xA8], [CHR 0xE2, CHR 0x80, CHR 0xA9],
     [CHR 0xE2, CHR 0x80, CHR 0xAF],
     [CHR 0xE2, CHR 0x81, CHR 0x9F],
     [CHR 0xE3, CHR 0x80, CHR 0x80]]"

text \<open>The length of the white-space rune that \<open>s\<close> starts with, if it starts with one.\<close>

definition leadingSpace :: "string \<Rightarrow> nat option" where
  "leadingSpace s = map_option length (find (\<lambda>w. prefix w s) spaces)"

text \<open>The length of the white-space rune that \<open>s\<close> ends with, if it ends with one.\<close>

definition trailingSpace :: "string \<Rightarrow> nat option" where
  "trailingSpace s = map_option length (find (\<lambda>w. suffix w s) spaces)"

lemma find_spaces_length:
  "find P spaces = Some w \<Longrightarrow> 0 < length w"
  by (auto simp: find_Some_iff spaces_def nth_Cons' split: if_splits)

function TrimLeft :: "string \<Rightarrow> string" where
  "TrimLeft s = (case leadingSpace s of None \<Rightarrow> s | Some n \<Rightarrow> TrimLeft (drop n s))"
  by pat_completeness auto
termination
proof (relation "measure length")
  fix s n
  assume "leadingSpace s = Some n"
  then obtain w where w: "find (\<lambda>w. prefix w s) spaces = Some w" and n: "n = length w"
    by (auto simp: leadingSpace_def)
  from w have "prefix w s" by (auto simp: find_Some_iff)
  with find_spaces_length [OF w] n have "0 < n" "n \<le> length s"
    by (auto simp: prefix_def)
  then show "(drop n s, s) \<in> measure length" by simp
qed simp

function TrimRight :: "string \<Rightarrow> string" where
  "TrimRight s =
     (case trailingSpace s of None \<Rightarrow> s | Some n \<Rightarrow> TrimRight (take (length s - n) s))"
  by pat_completeness auto
termination
proof (relation "measure length")
  fix s n
  assume "trailingSpace s = Some n"
  then obtain w where w: "find (\<lambda>w. suffix w s) spaces = Some w" and n: "n = length w"
    by (auto simp: trailingSpace_def)
  from w have "suffix w s" by (auto simp: find_Some_iff)
  with find_spaces_length [OF w] n have "0 < n" "n \<le> length s"
    by (auto simp: suffix_def)
  then show "(take (length s - n) s, s) \<in> measure length" by simp
qed simp

definition TrimSpace :: "string \<Rightarrow> string" where
  "TrimSpace s = TrimRight (TrimLeft s)"

section \<open>Package net/url: query strings\<close>

text \<open>
  \<^verbatim>\<open>url.QueryEscape\<close>: letters, digits and \<open>- _ . ~\<close> are kept, a space becomes
  \<open>+\<close>, every other byte becomes \<open>%XX\<close> with upper-case hexadecimal digits.
\<close>

definition upperhex :: string where
  "upperhex = ''0123456789ABCDEF''"

definition isAlnum :: "char \<Rightarrow> bool" where
  "isAlnum c =
     (let n = (of_char c :: nat)
      in 97 \<le> n \<and> n \<le> 122 \<or> 65 \<le> n \<and> n \<le> 90 \<or> 48 \<le> n \<and> n \<le> 57)"

definition shouldEscape :: "char \<Rightarrow> bool" where
  "shouldEscape c =
     (if isAlnum c then False
      else if c \<in> {CHR ''-'', CHR ''_'', CHR ''.'', CHR ''~''} then False
      else True)"

definition escapeByte :: "char \<Rightarrow> string" where
  "escapeByte c =
     (if c = CHR '' '' then ''+''
      else if shouldEscape c
        then [CHR ''%'', upperhex ! (of_char c div 16), upperhex ! (of_char c mod 16)]
      else [c])"

definition QueryEscape :: "string \<Rightarrow> string" where
  "QueryEscape s = concat (map escapeByte s)"

text \<open>
  \<^verbatim>\<open>url.QueryUnescape\<close>: \<open>%XX\<close> becomes the byte, \<open>+\<close> becomes a space; a
  \<open>%\<close> that is not followed by two hexadecimal digits is an error (\<open>None\<close>).
\<close>

definition ishex :: "char \<Rightarrow> bool" where
  "ishex c =
     (let n = (of_char c :: nat)
      in 48 \<le> n \<and> n \<le> 57 \<or> 97 \<le> n \<and> n \<le> 102 \<or> 65 \<le> n \<and> n \<le> 70)"

definition unhex :: "char \<Rightarrow> nat" where
  "unhex c =
     (let n = (of_char c :: nat)
      in if 48 \<le> n \<and> n \<le> 57 then n - 48
         else if 97 \<le> n \<and> n \<le> 102 then n - 97 + 10
         else n - 65 + 10)"

fun QueryUnescape :: "string \<Rightarrow> string option" where
  "QueryUnescape [] = Some []"
| "QueryUnescape (c # s) =
     (if c = CHR ''%'' then
        (case s of
           a # b # s' \<Rightarrow>
             if ishex a \<and> ishex b
             then map_option (\<lambda>t. char_of (unhex a * 16 + unhex b) # t) (QueryUnescape s')
             else None
         | _ \<Rightarrow> None)
      else if c = CHR ''+'' then map_option (\<lambda>t. CHR '' '' # t) (QueryUnescape s)
      else map_option (\<lambda>t. c # t) (QueryUnescape s))"

text \<open>
  \<^verbatim>\<open>url.Values\<close> is \<^verbatim>\<open>map[string][]string\<close>. It is kept as an association list
  with distinct keys; the order of the list is not observable by the program, which
  reads a map by key, through \<^verbatim>\<open>Encode\<close> (sorted keys) or through \<^verbatim>\<open>range\<close>
  (see \<open>range_order\<close> below).
\<close>

type_synonym Values = "(string \<times> string list) list"

text \<open>\<^verbatim>\<open>m[key] = append(m[key], value)\<close>\<close>

fun Add :: "Values \<Rightarrow> string \<Rightarrow> string \<Rightarrow> Values" where
  "Add [] key val = [(key, [val])]"
| "Add ((k, vs) # m) key val =
     (if k = key then (k, vs @ [val]) # m else (k, vs) # Add m key val)"

text \<open>\<^verbatim>\<open>Values.Get\<close>: the first value of the key, or the empty string.\<close>

definition Get :: "Values \<Rightarrow> string \<Rightarrow> string" where
  "Get m key = (case map_of m key of Some (v # vs) \<Rightarrow> v | _ \<Rightarrow> [])"

text \<open>\<^verbatim>\<open>Values.Set\<close>: \<^verbatim>\<open>v[key] = []string{value}\<close>.\<close>

fun Set :: "Values \<Rightarrow> string \<Rightarrow> string \<Rightarrow> Values" where
  "Set [] key val = [(key, [val])]"
| "Set ((k, vs) # m) key val =
     (if k = key then (k, [val]) # m else (k, vs) # Set m key val)"

text \<open>
  \<^verbatim>\<open>Values.Encode\<close>: the keys are sorted (byte-wise), and every value of every key is
  written as \<open>QueryEscape key = QueryEscape value\<close>, joined by \<open>&\<close>.
\<close>

definition Encode :: "Values \<Rightarrow> string" where
  "Encode m =
     Join (concat (map (\<lambda>(k, vs). map (\<lambda>v. QueryEscape k @ ''='' @ QueryEscape v) vs)
                       (sort_key fst m))) ''&''"

text \<open>
  \<^verbatim>\<open>url.ParseQuery\<close>, as \<^verbatim>\<open>URL.Query\<close> uses it: the first error does not stop the
  parse, and the pair that caused it is left out. A pair that contains a semicolon, an
  empty pair, and a pair whose key or value does not unescape are left out.
\<close>

lemma Cut_shorter: "s \<noteq> [] \<Longrightarrow> length (snd (Cut s sep)) < length s"
proof -
  assume ne: "s \<noteq> []"
  let ?d = "dropWhile (\<lambda>c. c \<noteq> sep) s"
  have le: "length ?d \<le> length s"
    by (rule length_dropWhile_le)
  show ?thesis
  proof (cases ?d)
    case Nil
    have "snd (Cut s sep) = []"
      unfolding Cut_def Nil by simp
    with ne show ?thesis by simp
  next
    case (Cons a as)
    with le show ?thesis by (simp add: Cut_def)
  qed
qed

function parseQuery :: "Values \<Rightarrow> string \<Rightarrow> Values" where
  "parseQuery m query =
     (if query = [] then m
      else
        let (key, rest) = Cut query (CHR ''&'') in
        if Contains key '';'' then parseQuery m rest
        else if key = [] then parseQuery m rest
        else
          let (k, v) = Cut key (CHR ''='') in
          case QueryUnescape k of
            None \<Rightarrow> parseQuery m rest
          | Some key1 \<Rightarrow>
              (case QueryUnescape v of
                 None \<Rightarrow> parseQuery m rest
               | Some value1 \<Rightarrow> parseQuery (Add m key1 value1) rest))"
  by pat_completeness auto
termination
proof (relation "measure (\<lambda>(m, query). length query)", goal_cases)
  case 1
  show ?case by simp
next
  case (2 m query x key rest)
  with Cut_shorter [of query "CHR ''&''"] show ?case by (cases "Cut query (CHR ''&'')") simp
next
  case (3 m query x key rest)
  with Cut_shorter [of query "CHR ''&''"] show ?case by (cases "Cut query (CHR ''&'')") simp
next
  case (4 m query x key rest)
  with Cut_shorter [of query "CHR ''&''"] show ?case by (cases "Cut query (CHR ''&'')") simp
next
  case (5 m query x key rest)
  with Cut_shorter [of query "CHR ''&''"] show ?case by (cases "Cut query (CHR ''&'')") simp
next
  case (6 m query x key rest)
  with Cut_shorter [of query "CHR ''&''"] show ?case by (cases "Cut query (CHR ''&'')") simp
qed

definition ParseQuery :: "string \<Rightarrow> Values" where
  "ParseQuery query = parseQuery [] query"

section \<open>The environment of a run\<close>

text \<open>
  \<^verbatim>\<open>url.URL\<close>: the program reads and writes the field \<^verbatim>\<open>RawQuery\<close> only; the
  scheme, authority and path that \<^verbatim>\<open>url.Parse\<close> found are carried along in
  \<open>Other\<close>, the fragment in \<open>Fragment\<close>.
\<close>

record url_URL =
  Other :: string
  RawQuery :: string
  Fragment :: string

text \<open>\<^verbatim>\<open>URL.Query\<close>: \<^verbatim>\<open>v, _ := ParseQuery(u.RawQuery); return v\<close>.\<close>

definition Query :: "url_URL \<Rightarrow> Values" where
  "Query u = ParseQuery (RawQuery u)"

text \<open>
  What \<^verbatim>\<open>client.Do\<close> hands back when it reports no error: the value of the
  Content-Type header, and a body that is nil, fails while it is read, or reads to the
  end as the given bytes.
\<close>

datatype body = NilBody | ReadError | Data string

record response =
  ContentType :: string
  Body :: body

text \<open>
  The parts of a run that main.go does not decide:
  \<^item> \<open>url_Parse\<close> and \<open>URL_String\<close>: \<^verbatim>\<open>url.Parse\<close> (\<open>None\<close> is its error) and
    \<^verbatim>\<open>URL.String\<close> of the standard library;
  \<^item> \<open>newRequest\<close>: whether \<^verbatim>\<open>http.NewRequestWithContext\<close> accepts the target;
  \<^item> \<open>client_Do\<close>: the network and the server behind \<^verbatim>\<open>client.Do\<close>, with the
    configured timeout and headers; \<open>None\<close> is a transport error or a timeout;
  \<^item> \<open>range_order\<close>: the order in which \<^verbatim>\<open>range\<close> visits the entries of a map. Go
    leaves it unspecified, and it may differ from one run to the next; a run may use
    any rearrangement of the entries (\<open>valid_order\<close>).
\<close>

record env =
  url_Parse :: "string \<Rightarrow> url_URL option"
  URL_String :: "url_URL \<Rightarrow> string"
  newRequest :: "string \<Rightarrow> bool"
  client_Do :: "string \<Rightarrow> response option"
  range_order :: "Values \<Rightarrow> Values"

definition valid_order :: "env \<Rightarrow> bool" where
  "valid_order e = (\<forall>q. mset (range_order e q) = mset q)"

section \<open>main.go\<close>

subsection \<open>Markers and types\<close>

definition prefix_marker :: string where
  "prefix_marker = ''aprefix''"

definition suffix_marker :: string where
  "suffix_marker = ''asuffix''"

record Result =
  URL :: string
  Param :: string
  Chars :: "string list"

subsection \<open>URL normalization\<close>

definition normalizeURL :: "string \<Rightarrow> string" where
  "normalizeURL u =
     Replace
       [([backslash, backslash, CHR ''?''], ''?''),
        ([backslash, CHR ''?''], ''?''),
        ([backslash, CHR ''=''], ''=''),
        ([backslash, CHR ''&''], ''&'')] u"

subsection \<open>HTTP\<close>

text \<open>
  \<open>doRequest\<close> returns the response (\<open>None\<close> for Go's nil) and the body, and as a
  third component the list of targets it passed to \<^verbatim>\<open>client.Do\<close>, so that the
  number of requests a function issues can be stated.
\<close>

definition doRequest :: "env \<Rightarrow> string \<Rightarrow> (response option \<times> string) \<times> string list" where
  "doRequest e target =
     (if \<not> newRequest e target then ((None, []), [])
      else
        case client_Do e target of
          None \<Rightarrow> ((None, []), [target])
        | Some resp \<Rightarrow>
            (case Body resp of
               NilBody \<Rightarrow> ((None, []), [target])
             | ReadError \<Rightarrow> ((Some resp, []), [target])
             | Data d \<Rightarrow> ((Some resp, d), [target])))"

subsection \<open>Step 1: find reflection\<close>

text \<open>The loop over the entries of \<^verbatim>\<open>u.Query()\<close>, in the order the run visits them.\<close>

fun reflected_loop :: "string \<Rightarrow> Values \<Rightarrow> string list" where
  "reflected_loop body [] = []"
| "reflected_loop body ((k, v) # kvs) =
     (case v of
        [] \<Rightarrow> reflected_loop body kvs
      | val # _ \<Rightarrow>
          if Contains body val \<or>
             Contains body (QueryEscape val) \<or>
             Contains body (ReplaceAll val '' '' ''+'')
          then k # reflected_loop body kvs
          else reflected_loop body kvs)"

definition findReflectedParams :: "env \<Rightarrow> string \<Rightarrow> string list \<times> string list" where
  "findReflectedParams e target =
     (let ((resp, body), reqs) = doRequest e target in
      case resp of
        None \<Rightarrow> ([], reqs)
      | Some r \<Rightarrow>
          if \<not> Contains (ContentType r) ''html'' then ([], reqs)
          else
            (case url_Parse e target of
               None \<Rightarrow> ([], reqs)
             | Some u \<Rightarrow> (reflected_loop body (range_order e (Query u)), reqs)))"

subsection \<open>Append and check\<close>

text \<open>The URL that \<open>checkAppend\<close> requests: \<open>u\<close> with its query rebuilt.\<close>

definition probeURL :: "url_URL \<Rightarrow> string \<Rightarrow> string \<Rightarrow> url_URL" where
  "probeURL u param payload =
     (let q = Query u;
          q' = Set q param (Get q param @ payload)
      in u\<lparr>RawQuery := Encode q'\<rparr>)"

definition checkAppend :: "env \<Rightarrow> string \<Rightarrow> string \<Rightarrow> string \<Rightarrow> bool \<times> string list" where
  "checkAppend e target param payload =
     (case url_Parse e target of
        None \<Rightarrow> (False, [])
      | Some u \<Rightarrow>
          let ((resp, body), reqs) = doRequest e (URL_String e (probeURL u param payload))
          in (Contains body payload, reqs))"

subsection \<open>Step 2: special character test\<close>

definition chars :: "string list" where
  "chars =
     [[CHR 0x22], [CHR 0x27], ''<'', ''>'', ''$'', ''|'',
      ''('', '')'', [CHR 0x60], '':'', '';'', ''{'', ''}'']"

fun chars_loop :: "env \<Rightarrow> string \<Rightarrow> string \<Rightarrow> string list \<Rightarrow> string list \<times> string list" where
  "chars_loop e target param [] = ([], [])"
| "chars_loop e target param (c # cs) =
     (let payload = prefix_marker @ c @ suffix_marker;
          (ok, reqs) = checkAppend e target param payload;
          (unfiltered, reqs') = chars_loop e target param cs
      in (if ok then c # unfiltered else unfiltered, reqs @ reqs'))"

definition testSpecialChars :: "env \<Rightarrow> string \<Rightarrow> string \<Rightarrow> string list \<times> string list" where
  "testSpecialChars e target param = chars_loop e target param chars"

subsection \<open>main: the line reader, the workers, the grouping\<close>

text \<open>
  The reader goroutine: the lines that are sent to the workers, given the lines the
  scanner delivers.
\<close>

definition reader :: "string list \<Rightarrow> string list" where
  "reader lines = filter (\<lambda>line. line \<noteq> []) (map TrimSpace lines)"

text \<open>The body of a worker's loop for one received line: the results it sends.\<close>

fun params_loop :: "env \<Rightarrow> string \<Rightarrow> string list \<Rightarrow> Result list" where
  "params_loop e cleanURL [] = []"
| "params_loop e cleanURL (p # ps) =
     (let cs = fst (testSpecialChars e cleanURL p) in
      if length cs > 0
      then \<lparr>URL = cleanURL, Param = p, Chars = cs\<rparr> # params_loop e cleanURL ps
      else params_loop e cleanURL ps)"

definition worker :: "env \<Rightarrow> string \<Rightarrow> Result list" where
  "worker e rawURL =
     (let cleanURL = normalizeURL rawURL;
          params = fst (findReflectedParams e cleanURL)
      in params_loop e cleanURL params)"

text \<open>
  The workers run concurrently, so the results of different lines reach the results
  channel interleaved. \<open>emitted\<close> is the arrival order of one schedule (each line
  finished before the next); every other arrival order is a rearrangement of it.
\<close>

definition emitted :: "env \<Rightarrow> string list \<Rightarrow> Result list" where
  "emitted e lines = concat (map (worker e) (reader lines))"

text \<open>The grouping loop of main: \<^verbatim>\<open>grouped[r.URL][r.Param] = r.Chars\<close>.\<close>

type_synonym report = "string \<rightharpoonup> (string \<rightharpoonup> string list)"

definition group_step :: "report \<Rightarrow> Result \<Rightarrow> report" where
  "group_step grouped r =
     (let inner = (case grouped (URL r) of None \<Rightarrow> Map.empty | Some m \<Rightarrow> m)
      in grouped(URL r \<mapsto> inner(Param r \<mapsto> Chars r)))"

definition grouped :: "Result list \<Rightarrow> report" where
  "grouped rs = foldl group_step Map.empty rs"

declare TrimLeft.simps [simp del] TrimRight.simps [simp del] parseQuery.simps [simp del]

section \<open>Sample environments\<close>

text \<open>
  Environments on which the functions are run on concrete inputs: the fragment is cut
  off at the first \<open>#\<close> and the rest is split at its first question mark, every
  request can be built, the map is visited in list order, and the server is a parameter.
\<close>

definition split_Parse :: "string \<Rightarrow> url_URL option" where
  "split_Parse s =
     (let (rest, frag) = Cut s (CHR ''#'');
          (a, b) = Cut rest (CHR ''?'')
      in Some \<lparr>Other = a, RawQuery = b, Fragment = frag\<rparr>)"

definition join_String :: "url_URL \<Rightarrow> string" where
  "join_String u =
     Other u @ (if RawQuery u = [] then [] else ''?'' @ RawQuery u)
             @ (if Fragment u = [] then [] else ''#'' @ Fragment u)"

definition sample_env :: "(string \<Rightarrow> response option) \<Rightarrow> env" where
  "sample_env server =
     \<lparr>url_Parse = split_Parse, URL_String = join_String, newRequest = (\<lambda>target. True),
      client_Do = server, range_order = (\<lambda>q. q)\<rparr>"

text \<open>A response with the given content type and body.\<close>

definition page :: "string \<Rightarrow> string \<Rightarrow> response option" where
  "page ct d = Some \<lparr>ContentType = ct, Body = Data d\<rparr>"

text \<open>A server that answers every request with the same HTML page.\<close>

definition fixed_page :: "string \<Rightarrow> string \<Rightarrow> response option" where
  "fixed_page d target = page ''text/html'' d"

text \<open>A server that answers every request with an HTML page holding the unescaped
  request target.\<close>

definition echo_decoded :: "string \<Rightarrow> response option" where
  "echo_decoded target =
     page ''text/html'' (case QueryUnescape target of None \<Rightarrow> [] | Some d \<Rightarrow> d)"

text \<open>The same server behind a network that loses every request whose target holds
  an escaped \<open><\<close>.\<close>

definition echo_flaky :: "string \<Rightarrow> response option" where
  "echo_flaky target = (if Contains target ''%3C'' then None else echo_decoded target)"

text \<open>A server that answers every request with an HTML page holding the request
  target as it was sent, escapes included.\<close>

definition echo_raw :: "string \<Rightarrow> response option" where
  "echo_raw target = page ''text/html'' target"

text \<open>A server that sends the headers of an HTML response and then stalls until the
  timeout: the body cannot be read.\<close>

definition stalled :: "string \<Rightarrow> response option" where
  "stalled target = Some \<lparr>ContentType = ''text/html'', Body = ReadError\<rparr>"

section \<open>Auxiliary notions for the proofs\<close>

text \<open>The three bytes that the replacer of \<open>normalizeURL\<close> unescapes.\<close>

definition esc :: "char \<Rightarrow> bool" where
  "esc c = (c = CHR ''?'' \<or> c = CHR ''='' \<or> c = CHR ''&'')"

text \<open>One of the four \<open>old\<close> strings of \<open>normalizeURL\<close> starts at the head of \<open>s\<close>.\<close>

definition matches :: "string \<Rightarrow> bool" where
  "matches s =
     (prefix [backslash, backslash, CHR ''?''] s \<or> (\<exists>c. esc c \<and> prefix [backslash, c] s))"

text \<open>Somewhere in the string, a backslash stands before one of the three bytes.\<close>

fun has_esc :: "string \<Rightarrow> bool" where
  "has_esc (a # b # s) = (a = backslash \<and> esc b \<or> has_esc (b # s))"
| "has_esc _ = False"

definition esc_head :: "string \<Rightarrow> bool" where
  "esc_head s = (case s of [] \<Rightarrow> False | c # _ \<Rightarrow> esc c)"

text \<open>The inputs on which one pass of the replacer leaves an escape behind.\<close>

definition starts_bad :: "string \<Rightarrow> bool" where
  "starts_bad s =
     (prefix [backslash, backslash, CHR ''=''] s \<or>
      prefix [backslash, backslash, CHR ''&''] s \<or>
      prefix [backslash, backslash, backslash, CHR ''?''] s)"

fun bad :: "string \<Rightarrow> bool" where
  "bad [] = False"
| "bad (c # s) = (starts_bad (c # s) \<or> bad s)"

text \<open>The test that \<open>reflected_loop\<close> applies to the value list of one parameter.\<close>

definition reflects :: "string \<Rightarrow> string list \<Rightarrow> bool" where
  "reflects body v =
     (case v of
        [] \<Rightarrow> False
      | val # _ \<Rightarrow>
          Contains body val \<or> Contains body (QueryEscape val) \<or>
          Contains body (ReplaceAll val '' '' ''+''))"

text \<open>The character list of the last result for a URL and a parameter.\<close>

definition last_chars :: "Result list \<Rightarrow> string \<Rightarrow> string \<Rightarrow> string list option" where
  "last_chars rs u p = map_option Chars (find (\<lambda>r. URL r = u \<and> Param r = p) (rev rs))"

text \<open>A string that consists of white-space runes only.\<close>

inductive whitespace_only :: "string \<Rightarrow> bool" where
  Nil: "whitespace_only []"
| Rune: "w \<in> set spaces \<Longrightarrow> whitespace_only s \<Longrightarrow> whitespace_only (w @ s)"

text \<open>The length of the UTF-8 encoding of a white-space rune, from its first byte.\<close>

definition rune_len :: "char \<Rightarrow> nat" where
  "rune_len c =
     (if c = CHR 0xC2 then 2 else if c \<in> {CHR 0xE1, CHR 0xE2, CHR 0xE3} then 3 else 1)"

text \<open>One pair of a query as \<^verbatim>\<open>Encode\<close> writes it, and the pairs of a parsed query in
  the order of its entries.\<close>

definition encodePair :: "string \<times> string \<Rightarrow> string" where
  "encodePair kv = QueryEscape (fst kv) @ ''='' @ QueryEscape (snd kv)"

definition flatten :: "Values \<Rightarrow> (string \<times> string) list" where
  "flatten m = concat (map (\<lambda>(k, vs). map (Pair k) vs) m)"

text \<open>A request that did not bring back a body: it could not be built, the transport
  reported an error or a timeout, the response had no body, or the body failed while it
  was read.\<close>

definition failed :: "env \<Rightarrow> string \<Rightarrow> bool" where
  "failed e target =
     (\<not> newRequest e target \<or>
      (case client_Do e target of
         None \<Rightarrow> True
       | Some resp \<Rightarrow> (case Body resp of Data d \<Rightarrow> False | _ \<Rightarrow> True)))"

section \<open>Properties of the normalizer\<close>

lemma prefix_Cons_iff:
  "prefix (a # xs) s = (case s of [] \<Rightarrow> False | b # t \<Rightarrow> a = b \<and> prefix xs t)"
  by (cases s) auto

lemma normalizeURL_Nil: "normalizeURL [] = []"
  by (simp add: normalizeURL_def)

lemma normalizeURL_double:
  "normalizeURL (backslash # backslash # CHR ''?'' # s) = CHR ''?'' # normalizeURL s"
  by (simp add: normalizeURL_def)

lemma normalizeURL_single:
  "esc c \<Longrightarrow> normalizeURL (backslash # c # s) = c # normalizeURL s"
  by (auto simp: normalizeURL_def esc_def)

lemma normalizeURL_copy:
  "\<not> matches (c # s) \<Longrightarrow> normalizeURL (c # s) = c # normalizeURL s"
  by (auto simp: normalizeURL_def matches_def esc_def)

lemma normalizeURL_cases:
  obtains (Nil) "x = []"
  | (Double) s where "x = backslash # backslash # CHR ''?'' # s"
  | (Single) c s where "esc c" "x = backslash # c # s"
  | (Copy) c s where "x = c # s" "\<not> matches x"
proof (cases x)
  case Nil
  then show ?thesis using that(1) by simp
next
  case (Cons c s)
  show ?thesis
  proof (cases "matches x")
    case False
    with Cons show ?thesis using that(4) by simp
  next
    case True
    then show ?thesis
      unfolding matches_def using that(2,3) Cons
      by (auto simp: prefix_Cons_iff split: list.splits)
  qed
qed

lemma normalizeURL_induct [case_names Nil Double Single Copy]:
  assumes "P []"
    and "\<And>s. P s \<Longrightarrow> P (backslash # backslash # CHR ''?'' # s)"
    and "\<And>c s. esc c \<Longrightarrow> P s \<Longrightarrow> P (backslash # c # s)"
    and "\<And>c s. \<not> matches (c # s) \<Longrightarrow> P s \<Longrightarrow> P (c # s)"
  shows "P x"
proof (induction x rule: length_induct)
  case (1 x)
  show ?case
  proof (cases x rule: normalizeURL_cases)
    case Nil
    then show ?thesis using assms(1) by simp
  next
    case (Double s)
    then show ?thesis using assms(2) 1 by simp
  next
    case (Single c s)
    then show ?thesis using assms(3) 1 by simp
  next
    case (Copy c s)
    then show ?thesis using assms(4) 1 by simp
  qed
qed

lemma has_esc_Cons: "has_esc (a # t) = (a = backslash \<and> esc_head t \<or> has_esc t)"
  by (cases t) (auto simp: esc_head_def)

lemma length_normalizeURL: "length (normalizeURL x) \<le> length x"
  by (induction x rule: normalizeURL_induct)
     (simp_all add: normalizeURL_Nil normalizeURL_double normalizeURL_single normalizeURL_copy)

lemma has_esc_tail: "\<not> matches (c # s) \<Longrightarrow> has_esc (c # s) \<Longrightarrow> has_esc s"
  by (cases s) (auto simp: matches_def)

lemma has_esc_shrinks: "has_esc x \<Longrightarrow> length (normalizeURL x) < length x"
proof (induction x rule: normalizeURL_induct)
  case Nil
  then show ?case by simp
next
  case (Double s)
  show ?case using length_normalizeURL [of s] by (simp add: normalizeURL_double)
next
  case (Single c s)
  show ?case using length_normalizeURL [of s] Single.hyps by (simp add: normalizeURL_single)
next
  case (Copy c s)
  from Copy.hyps Copy.prems have "has_esc s"
    by (rule has_esc_tail)
  with Copy.IH Copy.hyps show ?case by (simp add: normalizeURL_copy)
qed

lemma no_esc_fixed: "\<not> has_esc x \<Longrightarrow> normalizeURL x = x"
proof (induction x rule: normalizeURL_induct)
  case Nil
  then show ?case by (simp add: normalizeURL_Nil)
next
  case (Double s)
  then show ?case by (simp add: esc_def)
next
  case (Single c s)
  then show ?case by simp
next
  case (Copy c s)
  then show ?case by (simp add: normalizeURL_copy has_esc_Cons)
qed

text \<open>The fixed points of the normalizer are the strings without an escape.\<close>

lemma normalizeURL_fixed_iff: "normalizeURL x = x \<longleftrightarrow> \<not> has_esc x"
  using has_esc_shrinks [of x] no_esc_fixed [of x] by auto

lemma esc_head_normalizeURL:
  "esc_head (normalizeURL s) \<longleftrightarrow> esc_head s \<or> matches s"
proof (cases s rule: normalizeURL_cases)
  case Nil
  then show ?thesis by (simp add: normalizeURL_Nil esc_head_def matches_def)
next
  case (Double s)
  then show ?thesis by (simp add: normalizeURL_double esc_head_def matches_def esc_def)
next
  case (Single c s)
  then show ?thesis by (auto simp add: normalizeURL_single esc_head_def matches_def)
next
  case (Copy c s)
  then show ?thesis by (simp add: normalizeURL_copy esc_head_def)
qed

lemma bad_Contains:
  "bad x \<longleftrightarrow>
     Contains x [backslash, backslash, CHR ''=''] \<or>
     Contains x [backslash, backslash, CHR ''&''] \<or>
     Contains x [backslash, backslash, backslash, CHR ''?'']"
  by (induction x) (auto simp: starts_bad_def)

lemma has_esc_normalizeURL: "has_esc (normalizeURL x) \<longleftrightarrow> bad x"
proof (induction x rule: normalizeURL_induct)
  case Nil
  then show ?case by (simp add: normalizeURL_Nil)
next
  case (Double s)
  then show ?case
    by (simp add: normalizeURL_double has_esc_Cons starts_bad_def)
next
  case (Single c s)
  then show ?case
    by (auto simp add: normalizeURL_single has_esc_Cons starts_bad_def esc_def)
next
  case (Copy c s)
  have "(c = backslash \<and> (esc_head s \<or> matches s)) \<longleftrightarrow> starts_bad (c # s)"
    using Copy.hyps
    by (cases s)
       (auto simp: matches_def starts_bad_def esc_head_def esc_def prefix_Cons_iff
             split: list.splits)
  with Copy.IH show ?case
    by (simp add: normalizeURL_copy [OF Copy.hyps] has_esc_Cons esc_head_normalizeURL)
qed

text \<open>
  Claim C2, as stated: normalizing twice gives the same as normalizing once, for every
  input. It fails: the replacer makes one pass and does not look at what it wrote, so
  backslash backslash \<open>=\<close> becomes backslash \<open>=\<close>, which a second pass turns into
  \<open>=\<close>.
\<close>

theorem normalizeURL_not_idempotent:
  "normalizeURL (normalizeURL [backslash, backslash, CHR ''='']) \<noteq>
   normalizeURL [backslash, backslash, CHR ''='']"
  by (simp add: normalizeURL_def)

text \<open>
  Claim C2, amended: normalizing twice gives the same as normalizing once exactly for
  the inputs that contain none of backslash backslash \<open>=\<close>, backslash backslash
  \<open>&\<close> and backslash backslash backslash \<open>?\<close>; in particular for every input
  without two adjacent backslashes.
\<close>

theorem normalizeURL_idempotent_iff:
  "normalizeURL (normalizeURL x) = normalizeURL x \<longleftrightarrow>
     \<not> Contains x [backslash, backslash, CHR ''=''] \<and>
     \<not> Contains x [backslash, backslash, CHR ''&''] \<and>
     \<not> Contains x [backslash, backslash, backslash, CHR ''?'']"
  using normalizeURL_fixed_iff [of "normalizeURL x"] has_esc_normalizeURL [of x]
    bad_Contains [of x]
  by simp

theorem normalizeURL_idempotent_iff_witness:
  "normalizeURL (normalizeURL (''http://x/a'' @ [backslash] @ ''?q'' @ [backslash] @ ''=1'')) =
   normalizeURL (''http://x/a'' @ [backslash] @ ''?q'' @ [backslash] @ ''=1'')"
  by (rule iffD2 [OF normalizeURL_idempotent_iff]) simp

section \<open>Properties of the grouping loop\<close>

lemma find_SomeD: "find P xs = Some x \<Longrightarrow> P x \<and> x \<in> set xs"
  by (induction xs) (auto split: if_splits)

lemma grouped_snoc: "grouped (rs @ [r]) = group_step (grouped rs) r"
  by (simp add: grouped_def)

lemma grouped_Nil: "grouped [] = Map.empty"
  by (simp add: grouped_def)

lemma last_chars_Some:
  "last_chars rs u p = Some cs \<Longrightarrow> \<exists>r \<in> set rs. URL r = u \<and> Param r = p \<and> Chars r = cs"
proof -
  assume "last_chars rs u p = Some cs"
  then obtain r where f: "find (\<lambda>r. URL r = u \<and> Param r = p) (rev rs) = Some r"
    and c: "cs = Chars r"
    by (auto simp: last_chars_def)
  from find_SomeD [OF f] c show ?thesis by auto
qed

lemma last_chars_None:
  "last_chars rs u p = None \<longleftrightarrow> \<not> (\<exists>r \<in> set rs. URL r = u \<and> Param r = p)"
  by (auto simp: last_chars_def find_None_iff)

lemma last_chars_snoc:
  "last_chars (rs @ [r]) u p =
     (if URL r = u \<and> Param r = p then Some (Chars r) else last_chars rs u p)"
  by (simp add: last_chars_def)

text \<open>The report after any sequence of results: a URL is a key when some result
  carries it, and a parameter maps to the character list of its last result.\<close>

lemma grouped_char:
  "grouped rs u = (if u \<in> URL ` set rs then Some (last_chars rs u) else None)"
proof (induction rs rule: rev_induct)
  case Nil
  then show ?case by (simp add: grouped_Nil)
next
  case (snoc r rs)
  show ?case
  proof (cases "URL r = u")
    case False
    then show ?thesis
      using snoc by (auto simp: grouped_snoc group_step_def Let_def last_chars_snoc)
  next
    case True
    have "((case grouped rs u of None \<Rightarrow> Map.empty | Some m \<Rightarrow> m)(Param r \<mapsto> Chars r)) p
           = last_chars (rs @ [r]) u p" for p
    proof (cases "u \<in> URL ` set rs")
      case True
      with snoc show ?thesis by (simp add: last_chars_snoc \<open>URL r = u\<close>)
    next
      case False
      then have "last_chars rs u p = None"
        by (auto simp: last_chars_None)
      with False snoc show ?thesis by (simp add: last_chars_snoc \<open>URL r = u\<close>)
    qed
    then have "(case grouped rs u of None \<Rightarrow> Map.empty | Some m \<Rightarrow> m)(Param r \<mapsto> Chars r)
           = last_chars (rs @ [r]) u"
      by (rule ext)
    with True show ?thesis
      by (simp add: grouped_snoc group_step_def Let_def)
  qed
qed

lemma last_chars_set:
  assumes "set rs = set rs'"
    and "\<forall>r \<in> set rs. \<forall>r' \<in> set rs.
           URL r = URL r' \<and> Param r = Param r' \<longrightarrow> Chars r = Chars r'"
  shows "last_chars rs u p = last_chars rs' u p"
proof (cases "last_chars rs u p")
  case None
  with assms(1) show ?thesis
    using last_chars_None [of rs u p] last_chars_None [of rs' u p] by auto
next
  case (Some cs)
  then obtain r where r: "r \<in> set rs" "URL r = u" "Param r = p" "Chars r = cs"
    using last_chars_Some by blast
  with assms(1) have "last_chars rs' u p \<noteq> None"
    using last_chars_None [of rs' u p] by auto
  then obtain cs' where cs': "last_chars rs' u p = Some cs'" by auto
  then obtain r' where r': "r' \<in> set rs'" "URL r' = u" "Param r' = p" "Chars r' = cs'"
    using last_chars_Some by blast
  from r'(1) assms(1) have "r' \<in> set rs" by simp
  with r(1) assms(2) have "URL r = URL r' \<and> Param r = Param r' \<longrightarrow> Chars r = Chars r'"
    by blast
  with r r' have "cs = cs'" by simp
  with Some cs' show ?thesis by simp
qed

text \<open>
  Claim C3, as stated: for every multiset of findings, folding them into the grouped map
  in any two orders gives the same report. It fails when two findings carry the same URL
  and parameter with different character lists (the same URL read twice from the input,
  one probe lost on the network): \<^verbatim>\<open>grouped[r.URL][r.Param] = r.Chars\<close> overwrites, so
  the finding that arrives last wins.
\<close>

theorem grouped_order_counterexample:
  "mset [\<lparr>URL = ''http://x/a?q=1'', Param = ''q'', Chars = [''<'']\<rparr>,
         \<lparr>URL = ''http://x/a?q=1'', Param = ''q'', Chars = [''>'']\<rparr>] =
   mset [\<lparr>URL = ''http://x/a?q=1'', Param = ''q'', Chars = [''>'']\<rparr>,
         \<lparr>URL = ''http://x/a?q=1'', Param = ''q'', Chars = [''<'']\<rparr>] \<and>
   grouped [\<lparr>URL = ''http://x/a?q=1'', Param = ''q'', Chars = [''<'']\<rparr>,
            \<lparr>URL = ''http://x/a?q=1'', Param = ''q'', Chars = [''>'']\<rparr>] \<noteq>
   grouped [\<lparr>URL = ''http://x/a?q=1'', Param = ''q'', Chars = [''>'']\<rparr>,
            \<lparr>URL = ''http://x/a?q=1'', Param = ''q'', Chars = [''<'']\<rparr>]"
proof -
  let ?a = "\<lparr>URL = ''http://x/a?q=1'', Param = ''q'', Chars = [''<'']\<rparr>"
  let ?b = "\<lparr>URL = ''http://x/a?q=1'', Param = ''q'', Chars = [''>'']\<rparr>"
  have "the (grouped [?a, ?b] ''http://x/a?q=1'') ''q'' = Some [''>'']"
    by (simp add: grouped_def group_step_def)
  moreover have "the (grouped [?b, ?a] ''http://x/a?q=1'') ''q'' = Some [''<'']"
    by (simp add: grouped_def group_step_def)
  ultimately have "grouped [?a, ?b] \<noteq> grouped [?b, ?a]" by auto
  moreover have "mset [?a, ?b] = mset [?b, ?a]" by (simp add: add_mset_commute)
  ultimately show ?thesis by (rule conjI [rotated])
qed

text \<open>
  Claim C3, amended: for every sequence of findings in which any two findings with the
  same URL and the same parameter carry the same character list (in particular when no
  URL and parameter pair occurs twice), folding the findings in any two orders gives the
  same report: the same URL keys, the same parameter keys, the same character lists.
\<close>

theorem grouped_order_independent:
  assumes "mset rs = mset rs'"
    and "\<forall>r \<in> set rs. \<forall>r' \<in> set rs.
           URL r = URL r' \<and> Param r = Param r' \<longrightarrow> Chars r = Chars r'"
  shows "grouped rs = grouped rs'"
proof -
  from assms(1) have s: "set rs = set rs'" by (rule mset_eq_setD)
  show ?thesis
  proof
    fix u
    have "last_chars rs u = last_chars rs' u"
      using last_chars_set [OF s assms(2)] by (simp add: fun_eq_iff)
    with s show "grouped rs u = grouped rs' u"
      by (simp add: grouped_char)
  qed
qed

theorem grouped_order_independent_witness:
  "grouped [\<lparr>URL = ''http://x/a?q=1'', Param = ''q'', Chars = [''<'']\<rparr>,
            \<lparr>URL = ''http://x/b?r=1'', Param = ''r'', Chars = [''>'']\<rparr>] =
   grouped [\<lparr>URL = ''http://x/b?r=1'', Param = ''r'', Chars = [''>'']\<rparr>,
            \<lparr>URL = ''http://x/a?q=1'', Param = ''q'', Chars = [''<'']\<rparr>]"
proof (rule grouped_order_independent)
  show "mset [\<lparr>URL = ''http://x/a?q=1'', Param = ''q'', Chars = [''<'']\<rparr>,
              \<lparr>URL = ''http://x/b?r=1'', Param = ''r'', Chars = [''>'']\<rparr>] =
        mset [\<lparr>URL = ''http://x/b?r=1'', Param = ''r'', Chars = [''>'']\<rparr>,
              \<lparr>URL = ''http://x/a?q=1'', Param = ''q'', Chars = [''<'']\<rparr>]"
    by (simp add: add_mset_commute)
  show "\<forall>r \<in> set [\<lparr>URL = ''http://x/a?q=1'', Param = ''q'', Chars = [''<'']\<rparr>,
                    \<lparr>URL = ''http://x/b?r=1'', Param = ''r'', Chars = [''>'']\<rparr>].
        \<forall>r' \<in> set [\<lparr>URL = ''http://x/a?q=1'', Param = ''q'', Chars = [''<'']\<rparr>,
                     \<lparr>URL = ''http://x/b?r=1'', Param = ''r'', Chars = [''>'']\<rparr>].
          URL r = URL r' \<and> Param r = Param r' \<longrightarrow> Chars r = Chars r'"
    by simp
qed

section \<open>Properties of the reflection detector\<close>

lemma Contains_sublist: "Contains s sub \<longleftrightarrow> sublist sub s"
  by (induction s) (auto simp: sublist_Cons_right)

lemma Contains_Nil: "Contains body []"
  by (induction body) auto

lemma ReplaceAll_space:
  "ReplaceAll v '' '' ''+'' = map (\<lambda>c. if c = CHR '' '' then CHR ''+'' else c) v"
  by (induction v) (auto simp: ReplaceAll_def)

lemma reflected_loop_filter:
  "reflected_loop body kvs = map fst (filter (\<lambda>kv. reflects body (snd kv)) kvs)"
  by (induction body kvs rule: reflected_loop.induct)
     (auto simp: reflects_def split: list.splits)

lemma Add_keys:
  "map fst (Add m k v) = (if k \<in> set (map fst m) then map fst m else map fst m @ [k])"
proof (induction m)
  case Nil
  show ?case by simp
next
  case (Cons a m)
  obtain k' vs where a: "a = (k', vs)" by (cases a)
  show ?case
  proof (cases "k' = k")
    case True
    with a show ?thesis by simp
  next
    case False
    with a Cons show ?thesis by simp
  qed
qed

lemma Add_distinct: "distinct (map fst m) \<Longrightarrow> distinct (map fst (Add m k v))"
  by (simp add: Add_keys)

text \<open>A parsed query has every name once, as a Go map has.\<close>

lemma parseQuery_distinct:
  "distinct (map fst m) \<Longrightarrow> distinct (map fst (parseQuery m query))"
proof (induction m query rule: parseQuery.induct)
  case (1 m query)
  show ?case
  proof (cases "query = []")
    case True
    with 1 show ?thesis by (simp add: parseQuery.simps)
  next
    case False
    obtain key rest where c: "Cut query (CHR ''&'') = (key, rest)" by force
    obtain k v where d: "Cut key (CHR ''='') = (k, v)" by force
    note ih = "1.IH" [OF False refl c [symmetric]]
    show ?thesis
      using False c d "1.prems" ih Add_distinct
      by (subst parseQuery.simps) (auto split: option.splits)
  qed
qed

lemma ParseQuery_distinct: "distinct (map fst (ParseQuery query))"
  by (simp add: ParseQuery_def parseQuery_distinct)

lemma findReflectedParams_html:
  assumes "doRequest e target = ((Some r, body), reqs)"
    and "Contains (ContentType r) ''html''"
    and "url_Parse e target = Some u"
  shows "fst (findReflectedParams e target) = reflected_loop body (range_order e (Query u))"
  using assms by (simp add: findReflectedParams_def)

lemma valid_order_set: "valid_order e \<Longrightarrow> set (range_order e q) = set q"
  unfolding valid_order_def by (metis mset_eq_setD)

lemma valid_order_sample: "valid_order (sample_env server)"
  by (simp add: valid_order_def sample_env_def)

lemma valid_order_sample_rev: "valid_order ((sample_env server)\<lparr>range_order := rev\<rparr>)"
  by (simp add: valid_order_def sample_env_def)

text \<open>
  Claim C1, as stated: a parameter whose first value is the empty string is never in the
  result of \<open>findReflectedParams\<close>, for any body. It fails: the loop skips a parameter
  only when its list of values is empty (\<^verbatim>\<open>len(v) == 0\<close>), and for the value \<open>''''\<close>
  \<^verbatim>\<open>strings.Contains(body, "")\<close> is true. Here the URL is \<open>http://x/a?p=\<close> and the page
  does not mention the parameter.
\<close>

theorem empty_value_counterexample:
  "map_of (ParseQuery ''p='') ''p'' = Some [[]] \<and>
   fst (findReflectedParams (sample_env (fixed_page ''<html></html>''))
          ''http://x/a?p='') = [''p'']"
  by code_simp

text \<open>
  Claim C1, amended: when the request succeeds with a content type that contains
  \<open>html\<close> and the URL parses, a parameter whose first value is the empty string is in
  the result of \<open>findReflectedParams\<close>, for every body. The only parameters that the
  loop skips without looking at the body are those with no value at all.
\<close>

theorem empty_value_reflected:
  assumes "doRequest e target = ((Some r, body), reqs)"
    and "Contains (ContentType r) ''html''"
    and "url_Parse e target = Some u"
    and "valid_order e"
    and "map_of (Query u) k = Some ([] # vs)"
  shows "k \<in> set (fst (findReflectedParams e target))"
proof -
  from assms(5) have "(k, [] # vs) \<in> set (Query u)"
    by (rule map_of_SomeD)
  moreover have "reflects body ([] # vs)"
    by (simp add: reflects_def Contains_Nil)
  ultimately show ?thesis
    using valid_order_set [OF assms(4)]
    by (force simp: findReflectedParams_html [OF assms(1-3)] reflected_loop_filter)
qed

theorem empty_value_reflected_witness:
  "''p'' \<in> set (fst (findReflectedParams
      (sample_env (fixed_page ''<html>1</html>'')) ''http://x/a?q=2&p=''))"
proof (rule empty_value_reflected
    [where r = "\<lparr>ContentType = ''text/html'', Body = Data ''<html>1</html>''\<rparr>"
       and body = "''<html>1</html>''" and reqs = "[''http://x/a?q=2&p='']"
       and u = "\<lparr>Other = ''http://x/a'', RawQuery = ''q=2&p='', Fragment = []\<rparr>" and vs = "[]"])
  show "doRequest (sample_env (fixed_page ''<html>1</html>''))
          ''http://x/a?q=2&p='' =
        ((Some \<lparr>ContentType = ''text/html'', Body = Data ''<html>1</html>''\<rparr>,
          ''<html>1</html>''), [''http://x/a?q=2&p=''])"
    by code_simp
  show "Contains (ContentType \<lparr>ContentType = ''text/html'', Body = Data ''<html>1</html>''\<rparr>)
          ''html''"
    by code_simp
  show "url_Parse (sample_env (fixed_page ''<html>1</html>''))
          ''http://x/a?q=2&p='' = Some \<lparr>Other = ''http://x/a'', RawQuery = ''q=2&p='', Fragment = []\<rparr>"
    by code_simp
  show "valid_order (sample_env (fixed_page ''<html>1</html>''))"
    by (rule valid_order_sample)
  show "map_of (Query \<lparr>Other = ''http://x/a'', RawQuery = ''q=2&p='', Fragment = []\<rparr>) ''p'' = Some [[]]"
    by code_simp
qed

text \<open>
  Claim C5: when the request succeeds with a content type that contains \<open>html\<close> and
  the URL parses (steps 1 and 2 of the detector), a parameter with a non-empty first
  value \<open>v\<close> is reported if and only if the body contains, as a substring, \<open>v\<close> itself,
  \<open>QueryEscape v\<close>, or \<open>v\<close> with every space replaced by \<open>+\<close>.
\<close>

theorem reflected_iff:
  assumes "doRequest e target = ((Some r, body), reqs)"
    and "Contains (ContentType r) ''html''"
    and "url_Parse e target = Some u"
    and "valid_order e"
    and "map_of (Query u) k = Some (v # vs)"
    and "v \<noteq> []"
  shows "k \<in> set (fst (findReflectedParams e target)) \<longleftrightarrow>
           sublist v body \<or> sublist (QueryEscape v) body \<or>
           sublist (map (\<lambda>c. if c = CHR '' '' then CHR ''+'' else c) v) body"
proof -
  have d: "distinct (map fst (Query u))"
    by (simp add: Query_def ParseQuery_distinct)
  have "k \<in> set (fst (findReflectedParams e target)) \<longleftrightarrow>
          (\<exists>vs'. (k, vs') \<in> set (Query u) \<and> reflects body vs')"
    using valid_order_set [OF assms(4)]
    by (force simp: findReflectedParams_html [OF assms(1-3)] reflected_loop_filter)
  also have "\<dots> \<longleftrightarrow> reflects body (v # vs)"
  proof -
    from assms(5) have i: "(k, v # vs) \<in> set (Query u)"
      by (rule map_of_SomeD)
    have "vs' = v # vs" if "(k, vs') \<in> set (Query u)" for vs'
      using d that i by (rule eq_key_imp_eq_value)
    with i show ?thesis by blast
  qed
  finally show ?thesis
    by (simp add: reflects_def Contains_sublist ReplaceAll_space)
qed

theorem reflected_iff_witness:
  "(''q'' \<in> set (fst (findReflectedParams
       (sample_env (fixed_page ''<p>a+b</p>'')) ''http://x/a?q=a%20b''))) =
   (sublist ''a b'' ''<p>a+b</p>'' \<or> sublist (QueryEscape ''a b'') ''<p>a+b</p>'' \<or>
    sublist (map (\<lambda>c. if c = CHR '' '' then CHR ''+'' else c) ''a b'') ''<p>a+b</p>'')"
proof (rule reflected_iff
    [where r = "\<lparr>ContentType = ''text/html'', Body = Data ''<p>a+b</p>''\<rparr>"
       and reqs = "[''http://x/a?q=a%20b'']"
       and u = "\<lparr>Other = ''http://x/a'', RawQuery = ''q=a%20b'', Fragment = []\<rparr>" and vs = "[]"])
  show "doRequest (sample_env (fixed_page ''<p>a+b</p>''))
          ''http://x/a?q=a%20b'' =
        ((Some \<lparr>ContentType = ''text/html'', Body = Data ''<p>a+b</p>''\<rparr>, ''<p>a+b</p>''),
         [''http://x/a?q=a%20b''])"
    by code_simp
  show "Contains (ContentType \<lparr>ContentType = ''text/html'', Body = Data ''<p>a+b</p>''\<rparr>)
          ''html''"
    by code_simp
  show "url_Parse (sample_env (fixed_page ''<p>a+b</p>''))
          ''http://x/a?q=a%20b'' = Some \<lparr>Other = ''http://x/a'', RawQuery = ''q=a%20b'', Fragment = []\<rparr>"
    by code_simp
  show "valid_order (sample_env (fixed_page ''<p>a+b</p>''))"
    by (rule valid_order_sample)
  show "map_of (Query \<lparr>Other = ''http://x/a'', RawQuery = ''q=a%20b'', Fragment = []\<rparr>) ''q'' = Some [''a b'']"
    by code_simp
  show "''a b'' \<noteq> []"
    by simp
qed

text \<open>
  Claim C4, as stated: two runs on the same URL with the same responses return the
  reflected names in the same order. It fails: the names are appended in the order in
  which \<^verbatim>\<open>range u.Query()\<close> visits a Go map, which the language leaves unspecified.
  Here the URL is \<open>http://x/?a=1&b=1\<close>, the body is \<open>1\<close>, one run visits \<open>a\<close>
  first and the other \<open>b\<close>.
\<close>

theorem reflected_order_counterexample:
  "valid_order (sample_env (fixed_page ''1'')) \<and>
   valid_order ((sample_env (fixed_page ''1''))\<lparr>range_order := rev\<rparr>) \<and>
   fst (findReflectedParams (sample_env (fixed_page ''1''))
          ''http://x/?a=1&b=1'') \<noteq>
   fst (findReflectedParams
          ((sample_env (fixed_page ''1''))\<lparr>range_order := rev\<rparr>)
          ''http://x/?a=1&b=1'')"
proof -
  have "fst (findReflectedParams (sample_env (fixed_page ''1''))
          ''http://x/?a=1&b=1'') = [''a'', ''b'']"
    by code_simp
  moreover have "fst (findReflectedParams
          ((sample_env (fixed_page ''1''))\<lparr>range_order := rev\<rparr>)
          ''http://x/?a=1&b=1'') = [''b'', ''a'']"
    by code_simp
  ultimately show ?thesis
    using valid_order_sample valid_order_sample_rev by simp
qed

text \<open>
  Claim C4, amended: two runs on the same URL with the same responses, whatever the order
  in which each of them visits the map, return the same reflected names, each name once;
  the order of the names is that of the map iteration and may differ between the runs.
\<close>

theorem reflected_same_names:
  assumes "valid_order e" and "valid_order (e\<lparr>range_order := f\<rparr>)"
  shows "mset (fst (findReflectedParams e target)) =
         mset (fst (findReflectedParams (e\<lparr>range_order := f\<rparr>) target)) \<and>
         distinct (fst (findReflectedParams e target))"
proof -
  have m: "mset (reflected_loop body (range_order e q)) = mset (reflected_loop body (f q))"
    for body q
  proof -
    from assms have "mset (range_order e q) = mset (f q)"
      by (simp add: valid_order_def)
    then show ?thesis
      by (simp add: reflected_loop_filter)
  qed
  have dq: "distinct (reflected_loop body (range_order e (Query u)))" for body u
  proof -
    have "distinct (map fst (Query u))"
      by (simp add: Query_def ParseQuery_distinct)
    moreover from assms(1) have "mset (map fst (range_order e (Query u))) = mset (map fst (Query u))"
      by (simp add: valid_order_def)
    ultimately have "distinct (map fst (range_order e (Query u)))"
      by (metis mset_eq_imp_distinct_iff)
    then show ?thesis
      by (simp add: reflected_loop_filter distinct_map_filter)
  qed
  show ?thesis
    using m dq
    by (auto simp: findReflectedParams_def doRequest_def split: option.splits body.splits)
qed

theorem reflected_same_names_witness:
  "mset (fst (findReflectedParams (sample_env (fixed_page ''1''))
           ''http://x/?a=1&b=1'')) =
   mset (fst (findReflectedParams
           ((sample_env (fixed_page ''1''))\<lparr>range_order := rev\<rparr>)
           ''http://x/?a=1&b=1'')) \<and>
   distinct (fst (findReflectedParams (sample_env (fixed_page ''1''))
           ''http://x/?a=1&b=1''))"
  by (rule reflected_same_names [OF valid_order_sample valid_order_sample_rev])

section \<open>Properties of the special-character prober\<close>

lemma chars_loop_fst:
  "fst (chars_loop e target param cs) =
     filter (\<lambda>c. fst (checkAppend e target param (prefix_marker @ c @ suffix_marker))) cs"
  by (induction cs) (auto simp: Let_def split: prod.splits)

lemma chars_loop_snd:
  "snd (chars_loop e target param cs) =
     concat (map (\<lambda>c. snd (checkAppend e target param (prefix_marker @ c @ suffix_marker))) cs)"
  by (induction cs) (auto simp: Let_def split: prod.splits)

lemma doRequest_once: "length (snd (doRequest e target)) \<le> 1"
  by (simp add: doRequest_def split: option.splits body.splits)

lemma doRequest_failed:
  "fst (fst (doRequest e target)) = None \<Longrightarrow> snd (fst (doRequest e target)) = []"
  by (simp add: doRequest_def split: option.splits body.splits if_splits)

lemma checkAppend_fst:
  "fst (checkAppend e target param payload) \<longleftrightarrow>
     (\<exists>u. url_Parse e target = Some u \<and>
          Contains (snd (fst (doRequest e (URL_String e (probeURL u param payload))))) payload)"
  by (auto simp: checkAppend_def split: option.splits prod.splits)

lemma checkAppend_snd:
  "snd (checkAppend e target param payload) =
     (case url_Parse e target of
        None \<Rightarrow> []
      | Some u \<Rightarrow> snd (doRequest e (URL_String e (probeURL u param payload))))"
  by (auto simp: checkAppend_def split: option.splits prod.splits)

lemma checkAppend_once: "length (snd (checkAppend e target param payload)) \<le> 1"
proof (cases "url_Parse e target")
  case None
  then show ?thesis by (simp add: checkAppend_snd)
next
  case (Some u)
  with doRequest_once [of e "URL_String e (probeURL u param payload)"]
  show ?thesis by (simp add: checkAppend_snd)
qed

text \<open>
  Claim C6: \<open>testSpecialChars\<close> reports a character \<open>c\<close> if and only if \<open>c\<close> is one of
  the probe characters, the URL parses, and the body of the response to the probe
  request contains the payload \<open>aprefix\<close>, \<open>c\<close>, \<open>asuffix\<close> as a substring (the body
  of a failed request is empty); and the characters it returns are a subsequence of the
  fixed probe order.
\<close>

theorem unfiltered_iff:
  "(c \<in> set (fst (testSpecialChars e target param)) \<longleftrightarrow>
      c \<in> set chars \<and>
      (\<exists>u. url_Parse e target = Some u \<and>
           sublist (''aprefix'' @ c @ ''asuffix'')
             (snd (fst (doRequest e
                (URL_String e (probeURL u param (''aprefix'' @ c @ ''asuffix'')))))))) \<and>
   subseq (fst (testSpecialChars e target param))
     [[CHR 0x22], [CHR 0x27], ''<'', ''>'', ''$'', ''|'',
      ''('', '')'', [CHR 0x60], '':'', '';'', ''{'', ''}'']"
proof
  show "c \<in> set (fst (testSpecialChars e target param)) \<longleftrightarrow>
      c \<in> set chars \<and>
      (\<exists>u. url_Parse e target = Some u \<and>
           sublist (''aprefix'' @ c @ ''asuffix'')
             (snd (fst (doRequest e
                (URL_String e (probeURL u param (''aprefix'' @ c @ ''asuffix'')))))))"
    by (simp add: testSpecialChars_def chars_loop_fst checkAppend_fst Contains_sublist
          prefix_marker_def suffix_marker_def)
  have "subseq (fst (testSpecialChars e target param)) chars"
    by (simp add: testSpecialChars_def chars_loop_fst)
  then show "subseq (fst (testSpecialChars e target param))
     [[CHR 0x22], [CHR 0x27], ''<'', ''>'', ''$'', ''|'',
      ''('', '')'', [CHR 0x60], '':'', '';'', ''{'', ''}'']"
    by (simp only: chars_def)
qed

theorem unfiltered_iff_witness:
  "''<'' \<in> set (fst (testSpecialChars (sample_env echo_decoded) ''http://x/a?q=hello'' ''q''))"
proof (rule iffD2 [OF conjunct1 [OF unfiltered_iff]], intro conjI exI)
  show "''<'' \<in> set chars"
    by code_simp
  show "url_Parse (sample_env echo_decoded) ''http://x/a?q=hello'' =
          Some \<lparr>Other = ''http://x/a'', RawQuery = ''q=hello'', Fragment = []\<rparr>"
    by code_simp
  show "sublist (''aprefix'' @ ''<'' @ ''asuffix'')
          (snd (fst (doRequest (sample_env echo_decoded)
             (URL_String (sample_env echo_decoded)
                (probeURL \<lparr>Other = ''http://x/a'', RawQuery = ''q=hello'', Fragment = []\<rparr> ''q''
                   (''aprefix'' @ ''<'' @ ''asuffix''))))))"
    by code_simp
qed

section \<open>Failed requests\<close>

lemma findReflectedParams_snd:
  "snd (findReflectedParams e target) = snd (doRequest e target)"
  by (auto simp: findReflectedParams_def split: prod.splits option.splits)

lemma findReflectedParams_failed:
  "fst (fst (doRequest e target)) = None \<Longrightarrow> fst (findReflectedParams e target) = []"
  by (auto simp: findReflectedParams_def split: prod.splits option.splits)

lemma worker_failed:
  "fst (fst (doRequest e (normalizeURL rawURL))) = None \<Longrightarrow> worker e rawURL = []"
  by (simp add: worker_def findReflectedParams_failed)

text \<open>A request has failed, for the callers of \<open>doRequest\<close>, when the response is nil:
  the request could not be built, the transport reported an error or a timeout, or the
  response had no body. A body that fails while it is read is taken as empty.\<close>

lemma doRequest_failed_iff:
  "fst (fst (doRequest e target)) = None \<longleftrightarrow>
     \<not> newRequest e target \<or> client_Do e target = None \<or>
     (\<exists>resp. client_Do e target = Some resp \<and> Body resp = NilBody)"
  by (auto simp: doRequest_def split: option.splits body.splits)

lemma emitted_failed:
  assumes "fst (fst (doRequest e (normalizeURL (TrimSpace raw)))) = None"
  shows "emitted e (xs @ raw # ys) = emitted e (xs @ ys)"
  using worker_failed [OF assms] by (simp add: emitted_def reader_def)

lemma failed_iff:
  "failed e target \<longleftrightarrow>
     \<not> newRequest e target \<or> client_Do e target = None \<or>
     (\<exists>resp. client_Do e target = Some resp \<and> (Body resp = NilBody \<or> Body resp = ReadError))"
  by (auto simp: failed_def split: option.splits body.splits)

lemma nil_response_failed: "fst (fst (doRequest e target)) = None \<Longrightarrow> failed e target"
  by (auto simp: failed_iff doRequest_failed_iff)

lemma failed_body: "failed e target \<Longrightarrow> snd (fst (doRequest e target)) = []"
  by (auto simp: failed_def doRequest_def split: option.splits body.splits)

lemma read_error_response:
  assumes "newRequest e target" and "client_Do e target = Some resp" and "Body resp = ReadError"
  shows "doRequest e target = ((Some resp, []), [target])"
  using assms by (simp add: doRequest_def)

lemma escapeByte_nonempty: "escapeByte c \<noteq> []"
  by (simp add: escapeByte_def)

lemma QueryEscape_empty: "QueryEscape v = [] \<longleftrightarrow> v = []"
  by (cases v) (simp_all add: QueryEscape_def escapeByte_nonempty)

lemma Contains_empty: "Contains [] s \<longleftrightarrow> s = []"
  by simp

lemma reflects_empty_body: "reflects [] vs \<longleftrightarrow> (\<exists>vs'. vs = [] # vs')"
  by (cases vs) (auto simp: reflects_def QueryEscape_empty ReplaceAll_space)

lemma findReflectedParams_cases:
  "fst (findReflectedParams e target) = [] \<or>
   (\<exists>u. url_Parse e target = Some u \<and>
        fst (findReflectedParams e target) =
          reflected_loop (snd (fst (doRequest e target))) (range_order e (Query u)))"
  by (auto simp: findReflectedParams_def split: prod.splits option.splits)

lemma reflected_loop_empty_body:
  assumes "valid_order e"
  shows "k \<in> set (reflected_loop [] (range_order e (Query u))) \<longleftrightarrow>
           (\<exists>vs. map_of (Query u) k = Some ([] # vs))"
proof -
  have d: "distinct (map fst (Query u))"
    by (simp add: Query_def ParseQuery_distinct)
  have "k \<in> set (reflected_loop [] (range_order e (Query u))) \<longleftrightarrow>
          (\<exists>vs'. (k, vs') \<in> set (Query u) \<and> reflects [] vs')"
    using valid_order_set [OF assms] by (force simp: reflected_loop_filter)
  also have "\<dots> \<longleftrightarrow> (\<exists>vs. (k, [] # vs) \<in> set (Query u))"
    by (auto simp: reflects_empty_body)
  also have "\<dots> \<longleftrightarrow> (\<exists>vs. map_of (Query u) k = Some ([] # vs))"
    using d by simp
  finally show ?thesis .
qed

lemma failed_nonempty_value:
  assumes "failed e target" and "valid_order e" and "url_Parse e target = Some u"
    and "map_of (Query u) k = Some (v # vs)" and "v \<noteq> []"
  shows "k \<notin> set (fst (findReflectedParams e target))"
proof
  assume k: "k \<in> set (fst (findReflectedParams e target))"
  with findReflectedParams_cases [of e target] assms(3)
  have "k \<in> set (reflected_loop (snd (fst (doRequest e target))) (range_order e (Query u)))"
    by auto
  with failed_body [OF assms(1)] have "k \<in> set (reflected_loop [] (range_order e (Query u)))"
    by simp
  with reflected_loop_empty_body [OF assms(2)] assms(4,5) show False
    by auto
qed

lemma read_error_reflected:
  assumes "newRequest e target" and "client_Do e target = Some resp"
    and "Body resp = ReadError" and "Contains (ContentType resp) ''html''"
    and "url_Parse e target = Some u" and "valid_order e"
  shows "k \<in> set (fst (findReflectedParams e target)) \<longleftrightarrow>
           (\<exists>vs. map_of (Query u) k = Some ([] # vs))"
  using findReflectedParams_html [OF read_error_response [OF assms(1-3)] assms(4,5)]
    reflected_loop_empty_body [OF assms(6)]
  by simp

lemma probe_failed_any:
  assumes "url_Parse e target = Some u"
    and "failed e (URL_String e (probeURL u param (prefix_marker @ c @ suffix_marker)))"
  shows "c \<notin> set (fst (testSpecialChars e target param))"
proof -
  from failed_body [OF assms(2)] assms(1)
  have "\<not> fst (checkAppend e target param (prefix_marker @ c @ suffix_marker))"
    by (simp add: checkAppend_fst prefix_marker_def suffix_marker_def)
  then show ?thesis
    by (simp add: testSpecialChars_def chars_loop_fst)
qed

lemma emitted_split: "emitted e (xs @ raw # ys) = emitted e xs @ emitted e [raw] @ emitted e ys"
  by (simp add: emitted_def reader_def)

text \<open>
  Claim C7, as stated: for every URL whose GET request fails (network error, timeout,
  malformed URL) \<open>findReflectedParams\<close> returns the empty list. It fails when the
  network error or the timeout comes while the body is read: \<open>doRequest\<close> then returns
  the response with an empty body (\<^verbatim>\<open>return resp, ""\<close>), the detector goes on, and a
  parameter whose first value is the empty string is found in the empty body. Here the
  URL is \<open>http://x/a?q=1&p=\<close> and the server sends the headers of an HTML response and
  then stalls.
\<close>

theorem read_failure_counterexample:
  "failed (sample_env stalled) ''http://x/a?q=1&p='' \<and>
   doRequest (sample_env stalled) ''http://x/a?q=1&p='' =
     ((Some \<lparr>ContentType = ''text/html'', Body = ReadError\<rparr>, []), [''http://x/a?q=1&p='']) \<and>
   fst (findReflectedParams (sample_env stalled) ''http://x/a?q=1&p='') = [''p'']"
  by code_simp

text \<open>
  Claim C7, amended. When the GET for a URL fails before a response is obtained (the
  request cannot be built, the transport reports an error or a timeout, or the response
  has no body), \<open>findReflectedParams\<close> returns the empty list, a plain value as in
  every other case, and the worker sends nothing for that line. When the GET fails in
  any way, also while the body is read, no parameter with a non-empty first value is
  reported; after a read failure on an HTML response the parameters reported are
  exactly those whose first value is the empty string. When the request for a probe
  character fails in any way, that character is not reported. No request is repeated:
  \<open>findReflectedParams\<close> and \<open>checkAppend\<close> call \<^verbatim>\<open>client.Do\<close> at most once,
  \<open>testSpecialChars\<close> issues the requests of its thirteen \<open>checkAppend\<close> calls and
  no other, and the verdict on each character is that of its own \<open>checkAppend\<close>
  call. The results of a line do not depend on the other lines.
\<close>

theorem failures_are_silent:
  "(fst (fst (doRequest e target)) = None \<longrightarrow>
      fst (findReflectedParams e target) = [] \<and>
      length (snd (findReflectedParams e target)) \<le> 1) \<and>
   (fst (fst (doRequest e (normalizeURL rawURL))) = None \<longrightarrow> worker e rawURL = []) \<and>
   (url_Parse e target = Some u \<and>
    failed e (URL_String e (probeURL u param (prefix_marker @ c @ suffix_marker))) \<longrightarrow>
      c \<notin> set (fst (testSpecialChars e target param))) \<and>
   length (snd (checkAppend e target param payload)) \<le> 1 \<and>
   snd (testSpecialChars e target param) =
     concat (map (\<lambda>c'. snd (checkAppend e target param (prefix_marker @ c' @ suffix_marker)))
                 chars) \<and>
   fst (testSpecialChars e target param) =
     filter (\<lambda>c'. fst (checkAppend e target param (prefix_marker @ c' @ suffix_marker))) chars \<and>
   (fst (fst (doRequest e (normalizeURL (TrimSpace raw)))) = None \<longrightarrow>
      emitted e (xs @ raw # ys) = emitted e (xs @ ys)) \<and>
   emitted e (xs @ raw # ys) = emitted e xs @ emitted e [raw] @ emitted e ys \<and>
   (failed e target \<longleftrightarrow>
      \<not> newRequest e target \<or> client_Do e target = None \<or>
      (\<exists>resp. client_Do e target = Some resp \<and>
         (Body resp = NilBody \<or> Body resp = ReadError))) \<and>
   (failed e target \<longrightarrow> length (snd (findReflectedParams e target)) \<le> 1) \<and>
   (failed e target \<and> valid_order e \<and> url_Parse e target = Some u \<and>
    map_of (Query u) k = Some (v # vs) \<and> v \<noteq> [] \<longrightarrow>
      k \<notin> set (fst (findReflectedParams e target))) \<and>
   (newRequest e target \<and> client_Do e target = Some resp \<and> Body resp = ReadError \<and>
    Contains (ContentType resp) ''html'' \<and> url_Parse e target = Some u \<and> valid_order e \<longrightarrow>
      (k \<in> set (fst (findReflectedParams e target)) \<longleftrightarrow>
         (\<exists>vs'. map_of (Query u) k = Some ([] # vs'))))"
proof (intro conjI impI)
  show "length (snd (findReflectedParams e target)) \<le> 1"
    by (simp only: findReflectedParams_snd doRequest_once)
  show "length (snd (findReflectedParams e target)) \<le> 1"
    by (simp only: findReflectedParams_snd doRequest_once)
  show "length (snd (checkAppend e target param payload)) \<le> 1"
    by (rule checkAppend_once)
  show "snd (testSpecialChars e target param) =
     concat (map (\<lambda>c'. snd (checkAppend e target param (prefix_marker @ c' @ suffix_marker)))
                 chars)"
    by (simp only: testSpecialChars_def chars_loop_snd)
  show "fst (testSpecialChars e target param) =
     filter (\<lambda>c'. fst (checkAppend e target param (prefix_marker @ c' @ suffix_marker))) chars"
    by (simp only: testSpecialChars_def chars_loop_fst)
  show "emitted e (xs @ raw # ys) = emitted e xs @ emitted e [raw] @ emitted e ys"
    by (rule emitted_split)
  show "failed e target \<longleftrightarrow>
      \<not> newRequest e target \<or> client_Do e target = None \<or>
      (\<exists>resp. client_Do e target = Some resp \<and>
         (Body resp = NilBody \<or> Body resp = ReadError))"
    by (rule failed_iff)
next
  assume "fst (fst (doRequest e target)) = None"
  then show "fst (findReflectedParams e target) = []"
    by (rule findReflectedParams_failed)
next
  assume "fst (fst (doRequest e (normalizeURL rawURL))) = None"
  then show "worker e rawURL = []"
    by (rule worker_failed)
next
  assume "url_Parse e target = Some u \<and>
    failed e (URL_String e (probeURL u param (prefix_marker @ c @ suffix_marker)))"
  then show "c \<notin> set (fst (testSpecialChars e target param))"
    using probe_failed_any by blast
next
  assume "fst (fst (doRequest e (normalizeURL (TrimSpace raw)))) = None"
  then show "emitted e (xs @ raw # ys) = emitted e (xs @ ys)"
    by (rule emitted_failed)
next
  assume "failed e target \<and> valid_order e \<and> url_Parse e target = Some u \<and>
    map_of (Query u) k = Some (v # vs) \<and> v \<noteq> []"
  then show "k \<notin> set (fst (findReflectedParams e target))"
    using failed_nonempty_value by blast
next
  assume "newRequest e target \<and> client_Do e target = Some resp \<and> Body resp = ReadError \<and>
    Contains (ContentType resp) ''html'' \<and> url_Parse e target = Some u \<and> valid_order e"
  then show "k \<in> set (fst (findReflectedParams e target)) \<longleftrightarrow>
         (\<exists>vs'. map_of (Query u) k = Some ([] # vs'))"
    using read_error_reflected by blast
qed

theorem failures_are_silent_witness:
  "fst (findReflectedParams (sample_env echo_flaky) ''http://x/a?q=%3C'') = [] \<and>
   length (snd (findReflectedParams (sample_env echo_flaky) ''http://x/a?q=%3C'')) \<le> 1 \<and>
   worker (sample_env echo_flaky) ''http://x/a?q=%3C'' = [] \<and>
   ''<'' \<notin> set (fst (testSpecialChars (sample_env echo_flaky) ''http://x/a?q=hello'' ''q'')) \<and>
   emitted (sample_env echo_flaky) ([] @ ''http://x/a?q=%3C'' # [''http://x/a?q=hello'']) =
     emitted (sample_env echo_flaky) ([] @ [''http://x/a?q=hello'']) \<and>
   ''q'' \<notin> set (fst (findReflectedParams (sample_env stalled) ''http://x/a?q=1&p='')) \<and>
   ''p'' \<in> set (fst (findReflectedParams (sample_env stalled) ''http://x/a?q=1&p=''))"
proof -
  let ?u = "\<lparr>Other = ''http://x/a'', RawQuery = ''q=hello'', Fragment = []\<rparr>"
  let ?s = "\<lparr>Other = ''http://x/a'', RawQuery = ''q=1&p='', Fragment = []\<rparr>"
  let ?r = "\<lparr>ContentType = ''text/html'', Body = ReadError\<rparr>"
  have a: "fst (fst (doRequest (sample_env echo_flaky) ''http://x/a?q=%3C'')) = None"
    by code_simp
  have n: "fst (fst (doRequest (sample_env echo_flaky) (normalizeURL ''http://x/a?q=%3C''))) = None"
    by code_simp
  have t: "fst (fst (doRequest (sample_env echo_flaky)
             (normalizeURL (TrimSpace ''http://x/a?q=%3C'')))) = None"
    by code_simp
  have u: "url_Parse (sample_env echo_flaky) ''http://x/a?q=hello'' = Some ?u"
    by code_simp
  have p: "failed (sample_env echo_flaky)
             (URL_String (sample_env echo_flaky)
                (probeURL ?u ''q'' (prefix_marker @ ''<'' @ suffix_marker)))"
    by code_simp
  have f: "failed (sample_env stalled) ''http://x/a?q=1&p=''"
    by code_simp
  have su: "url_Parse (sample_env stalled) ''http://x/a?q=1&p='' = Some ?s"
    by code_simp
  have q: "map_of (Query ?s) ''q'' = Some (''1'' # [])" "''1'' \<noteq> []"
    by code_simp+
  have e: "map_of (Query ?s) ''p'' = Some ([] # [])"
    by code_simp
  have r: "newRequest (sample_env stalled) ''http://x/a?q=1&p=''"
    "client_Do (sample_env stalled) ''http://x/a?q=1&p='' = Some ?r"
    "Body ?r = ReadError" "Contains (ContentType ?r) ''html''"
    by code_simp+
  from failures_are_silent
         [where e = "sample_env echo_flaky" and target = "''http://x/a?q=%3C''"
            and rawURL = "''http://x/a?q=%3C''"] a n
  have "fst (findReflectedParams (sample_env echo_flaky) ''http://x/a?q=%3C'') = [] \<and>
        length (snd (findReflectedParams (sample_env echo_flaky) ''http://x/a?q=%3C'')) \<le> 1 \<and>
        worker (sample_env echo_flaky) ''http://x/a?q=%3C'' = []"
    by blast
  moreover from failures_are_silent
         [where e = "sample_env echo_flaky" and target = "''http://x/a?q=hello''"
            and u = ?u and param = "''q''" and c = "''<''"] u p
  have "''<'' \<notin> set (fst (testSpecialChars (sample_env echo_flaky) ''http://x/a?q=hello'' ''q''))"
    by blast
  moreover from failures_are_silent
         [where e = "sample_env echo_flaky" and raw = "''http://x/a?q=%3C''" and xs = "[]"
            and ys = "[''http://x/a?q=hello'']"] t
  have "emitted (sample_env echo_flaky) ([] @ ''http://x/a?q=%3C'' # [''http://x/a?q=hello'']) =
     emitted (sample_env echo_flaky) ([] @ [''http://x/a?q=hello''])"
    by blast
  moreover from failures_are_silent
         [where e = "sample_env stalled" and target = "''http://x/a?q=1&p=''" and u = ?s
            and k = "''q''" and v = "''1''" and vs = "[]"]
       f su q valid_order_sample [of stalled]
  have "''q'' \<notin> set (fst (findReflectedParams (sample_env stalled) ''http://x/a?q=1&p=''))"
    by blast
  moreover from failures_are_silent
         [where e = "sample_env stalled" and target = "''http://x/a?q=1&p=''" and u = ?s
            and k = "''p''" and resp = ?r]
       r su e valid_order_sample [of stalled]
  have "''p'' \<in> set (fst (findReflectedParams (sample_env stalled) ''http://x/a?q=1&p=''))"
    by blast
  ultimately show ?thesis by blast
qed

section \<open>Properties of the final report\<close>

lemma params_loop_set:
  "r \<in> set (params_loop e u ps) \<longleftrightarrow>
     (\<exists>p \<in> set ps. fst (testSpecialChars e u p) \<noteq> [] \<and>
        r = \<lparr>URL = u, Param = p, Chars = fst (testSpecialChars e u p)\<rparr>)"
  by (induction ps) (auto simp: Let_def)

lemma emitted_set:
  "r \<in> set (emitted e lines) \<longleftrightarrow>
     (\<exists>line \<in> set (reader lines). \<exists>p \<in> set (fst (findReflectedParams e (normalizeURL line))).
        fst (testSpecialChars e (normalizeURL line) p) \<noteq> [] \<and>
        r = \<lparr>URL = normalizeURL line, Param = p,
             Chars = fst (testSpecialChars e (normalizeURL line) p)\<rparr>)"
  by (auto simp: emitted_def worker_def params_loop_set Let_def)

lemma grouped_entry:
  assumes "grouped rs u = Some m" and "m p = Some cs"
  shows "\<exists>r \<in> set rs. URL r = u \<and> Param r = p \<and> Chars r = cs"
proof -
  from assms(1) have "m = last_chars rs u"
    by (simp add: grouped_char split: if_splits)
  with assms(2) show ?thesis
    by (simp add: last_chars_Some)
qed

text \<open>
  Claim C8. The results of the workers may reach the grouping loop in any order, so a
  reachable final report is \<open>grouped rs\<close> for a rearrangement \<open>rs\<close> of the results
  emitted for the input lines. In every such report, an entry for a URL and a parameter
  is present only if the URL is the normalized form of a line that was read, the
  parameter is in the result of \<open>findReflectedParams\<close> for that URL, and the entry is
  the non-empty result of \<open>testSpecialChars\<close> for them; a parameter whose probe
  returns no character has no entry.
\<close>

theorem report_entries_sound:
  assumes "mset rs = mset (emitted e lines)"
  shows "(grouped rs u = Some m \<and> m p = Some cs \<longrightarrow>
            (\<exists>line \<in> set (reader lines). u = normalizeURL line) \<and>
            p \<in> set (fst (findReflectedParams e u)) \<and>
            cs = fst (testSpecialChars e u p) \<and> cs \<noteq> []) \<and>
         (fst (testSpecialChars e u p) = [] \<longrightarrow>
            (case grouped rs u of None \<Rightarrow> True | Some m' \<Rightarrow> m' p = None))"
proof -
  from assms have s: "set rs = set (emitted e lines)" by (rule mset_eq_setD)
  have main: "(\<exists>line \<in> set (reader lines). u = normalizeURL line) \<and>
            p \<in> set (fst (findReflectedParams e u)) \<and>
            cs' = fst (testSpecialChars e u p) \<and> cs' \<noteq> []"
    if "grouped rs u = Some m'" and "m' p = Some cs'" for m' cs'
  proof -
    from grouped_entry [OF that] obtain r where
      r: "r \<in> set rs" "URL r = u" "Param r = p" "Chars r = cs'" by blast
    from r(1) s have "r \<in> set (emitted e lines)" by simp
    with r(2-4) show ?thesis
      by (auto simp: emitted_set)
  qed
  show ?thesis
  proof (intro conjI impI)
    assume t: "fst (testSpecialChars e u p) = []"
    show "case grouped rs u of None \<Rightarrow> True | Some m' \<Rightarrow> m' p = None"
    proof (cases "grouped rs u")
      case None
      then show ?thesis by simp
    next
      case (Some a)
      have "a p = None"
      proof (cases "a p")
        case None
        then show ?thesis .
      next
        case (Some cs')
        from main [OF \<open>grouped rs u = Some a\<close> Some] t show ?thesis by simp
      qed
      with Some show ?thesis by simp
    qed
  qed (use main in blast)+
qed

theorem report_entries_sound_witness:
  "''q'' \<in> set (fst (findReflectedParams (sample_env echo_flaky) ''http://x/a?q=hello'')) \<and>
   [[CHR 0x22], [CHR 0x27], ''>'', ''$'', ''|'', ''('', '')'', [CHR 0x60],
    '':'', '';'', ''{'', ''}''] =
     fst (testSpecialChars (sample_env echo_flaky) ''http://x/a?q=hello'' ''q'') \<and>
   (case grouped (emitted (sample_env echo_raw) [''http://x/a?q=hi'']) ''http://x/a?q=hi'' of
      None \<Rightarrow> True | Some m' \<Rightarrow> m' ''q'' = None)"
proof -
  let ?cs = "[[CHR 0x22], [CHR 0x27], ''>'', ''$'', ''|'', ''('', '')'', [CHR 0x60],
              '':'', '';'', ''{'', ''}'']"
  let ?r = "\<lparr>URL = ''http://x/a?q=hello'', Param = ''q'', Chars = ?cs\<rparr>"
  have e: "emitted (sample_env echo_flaky) ['' http://x/a'' @ [backslash] @ ''?q=hello '', ''  ''] = [?r]"
    by code_simp
  have g: "grouped [?r] ''http://x/a?q=hello'' = Some (Map.empty(''q'' \<mapsto> ?cs))"
    by (simp add: grouped_def group_step_def)
  have m: "(Map.empty(''q'' \<mapsto> ?cs)) ''q'' = Some ?cs"
    by simp
  from report_entries_sound
    [of "[?r]" "sample_env echo_flaky" "['' http://x/a'' @ [backslash] @ ''?q=hello '', ''  '']"
        "''http://x/a?q=hello''" "Map.empty(''q'' \<mapsto> ?cs)" "''q''" ?cs] e g m
  have 1: "''q'' \<in> set (fst (findReflectedParams (sample_env echo_flaky) ''http://x/a?q=hello'')) \<and>
     ?cs = fst (testSpecialChars (sample_env echo_flaky) ''http://x/a?q=hello'' ''q'')"
    by simp
  have t: "fst (testSpecialChars (sample_env echo_raw) ''http://x/a?q=hi'' ''q'') = []"
    by code_simp
  from report_entries_sound
    [of "emitted (sample_env echo_raw) [''http://x/a?q=hi'']" "sample_env echo_raw"
        "[''http://x/a?q=hi'']" "''http://x/a?q=hi''" _ "''q''"] t
  have 2: "case grouped (emitted (sample_env echo_raw) [''http://x/a?q=hi'']) ''http://x/a?q=hi'' of
      None \<Rightarrow> True | Some m' \<Rightarrow> m' ''q'' = None"
    by simp
  from 1 2 show ?thesis by simp
qed

section \<open>Properties of the probe URL\<close>

lemma upperhex_digits:
  "\<forall>n \<in> set [0..<16]. ishex (upperhex ! n) \<and> unhex (upperhex ! n) = n \<and>
      upperhex ! n \<notin> {CHR ''&'', CHR ''='', CHR '';''}"
  by code_simp

lemma upperhex_digit:
  assumes "n < 16"
  shows "ishex (upperhex ! n)" and "unhex (upperhex ! n) = n"
    and "upperhex ! n \<noteq> CHR ''&''" and "upperhex ! n \<noteq> CHR ''=''"
    and "upperhex ! n \<noteq> CHR '';''"
  using upperhex_digits assms by auto

lemma of_char_nibbles: "(of_char c :: nat) div 16 < 16" "(of_char c :: nat) mod 16 < 16"
proof -
  have "(of_char c :: nat) < 256" by (rule nat_of_char_less_256)
  then show "(of_char c :: nat) div 16 < 16" by arith
  show "(of_char c :: nat) mod 16 < 16" by simp
qed

lemma unescaped_plain:
  "\<not> shouldEscape c \<Longrightarrow>
     c \<noteq> CHR ''%'' \<and> c \<noteq> CHR ''+'' \<and> c \<noteq> CHR ''&'' \<and> c \<noteq> CHR ''='' \<and> c \<noteq> CHR '';''"
  by (auto simp: shouldEscape_def isAlnum_def)

lemma QueryUnescape_escapeByte:
  "QueryUnescape (escapeByte c @ s) = map_option (\<lambda>t. c # t) (QueryUnescape s)"
proof -
  let ?n = "of_char c :: nat"
  have d: "?n div 16 < 16" by (rule of_char_nibbles)
  have m: "?n mod 16 < 16" by (rule of_char_nibbles)
  have "char_of (?n div 16 * 16 + ?n mod 16) = c"
    by simp
  with upperhex_digit(1,2) [OF d] upperhex_digit(1,2) [OF m] unescaped_plain [of c]
  show ?thesis
    by (auto simp: escapeByte_def)
qed

lemma QueryUnescape_append:
  "QueryUnescape (QueryEscape s @ t) = map_option (\<lambda>r. s @ r) (QueryUnescape t)"
  by (induction s)
     (simp_all add: QueryEscape_def QueryUnescape_escapeByte option.map_comp comp_def
        option.map_ident)

lemma QueryUnescape_QueryEscape: "QueryUnescape (QueryEscape s) = Some s"
  using QueryUnescape_append [of s "[]"] by simp

lemma escapeByte_plain:
  "x \<in> set (escapeByte c) \<Longrightarrow> x \<noteq> CHR ''&'' \<and> x \<noteq> CHR ''='' \<and> x \<noteq> CHR '';''"
proof -
  let ?n = "of_char c :: nat"
  have d: "?n div 16 < 16" by (rule of_char_nibbles)
  have m: "?n mod 16 < 16" by (rule of_char_nibbles)
  assume "x \<in> set (escapeByte c)"
  with upperhex_digit(3-5) [OF d] upperhex_digit(3-5) [OF m] unescaped_plain [of c]
  show ?thesis
    by (auto simp: escapeByte_def split: if_splits)
qed

lemma QueryEscape_plain:
  "x \<in> set (QueryEscape s) \<Longrightarrow> x \<noteq> CHR ''&'' \<and> x \<noteq> CHR ''='' \<and> x \<noteq> CHR '';''"
  by (auto simp: QueryEscape_def dest: escapeByte_plain)

lemma Cut_found: "sep \<notin> set a \<Longrightarrow> Cut (a @ sep # b) sep = (a, b)"
  by (induction a) (auto simp: Cut_def)

lemma Cut_missing: "sep \<notin> set a \<Longrightarrow> Cut a sep = (a, [])"
  by (induction a) (auto simp: Cut_def)

lemma Contains_single: "Contains s [c] \<longleftrightarrow> c \<in> set s"
  by (induction s) auto

lemma Join_Cons: "Join (x # xs) sep = x @ (if xs = [] then [] else sep @ Join xs sep)"
  by (cases xs) simp_all

lemma encodePair_Cut:
  "Cut (encodePair (k, v)) (CHR ''='') = (QueryEscape k, QueryEscape v)"
  using Cut_found [of "CHR ''=''" "QueryEscape k" "QueryEscape v"] QueryEscape_plain [of "CHR ''=''" k]
  by (auto simp: encodePair_def)

lemma encodePair_plain:
  "CHR ''&'' \<notin> set (encodePair kv)" "CHR '';'' \<notin> set (encodePair kv)" "encodePair kv \<noteq> []"
  using QueryEscape_plain [of "CHR ''&''"] QueryEscape_plain [of "CHR '';''"]
  by (auto simp: encodePair_def)

lemma Cut_Join:
  "Cut (Join (map encodePair (kv # ps)) ''&'') (CHR ''&'') =
     (encodePair kv, Join (map encodePair ps) ''&'')"
proof (cases ps)
  case Nil
  then show ?thesis
    using Cut_missing [OF encodePair_plain(1) [of kv]] by simp
next
  case (Cons a list)
  then show ?thesis
    using Cut_found [OF encodePair_plain(1) [of kv], of "Join (map encodePair ps) ''&''"]
    by simp
qed

lemma parseQuery_Join:
  "parseQuery acc (Join (map encodePair ps) ''&'') = foldl (\<lambda>a (k, v). Add a k v) acc ps"
proof (induction ps arbitrary: acc)
  case Nil
  show ?case by (subst parseQuery.simps) simp
next
  case (Cons kv ps)
  obtain k v where kv: "kv = (k, v)" by (cases kv)
  have ne: "Join (map encodePair (kv # ps)) ''&'' \<noteq> []"
    using encodePair_plain(3) [of kv] by (simp add: Join_Cons)
  have "parseQuery acc (Join (map encodePair (kv # ps)) ''&'') =
          parseQuery (Add acc k v) (Join (map encodePair ps) ''&'')"
    using ne Cut_Join [of kv ps] encodePair_plain [of kv] encodePair_Cut [of k v]
    by (subst parseQuery.simps)
       (simp add: kv Contains_single QueryUnescape_QueryEscape del: list.map Join.simps)
  with Cons [of "Add acc k v"] show ?case
    by (simp add: kv)
qed

lemma Add_fresh: "k \<notin> set (map fst acc) \<Longrightarrow> Add acc k v = acc @ [(k, [v])]"
  by (induction acc) auto

lemma Add_last: "k \<notin> set (map fst acc) \<Longrightarrow> Add (acc @ [(k, xs)]) k v = acc @ [(k, xs @ [v])]"
  by (induction acc) auto

lemma foldl_Add_same:
  "k \<notin> set (map fst acc) \<Longrightarrow>
     foldl (\<lambda>a (k, v). Add a k v) (acc @ [(k, xs)]) (map (Pair k) vs) = acc @ [(k, xs @ vs)]"
  by (induction vs arbitrary: xs) (simp_all add: Add_last)

lemma foldl_Add_key:
  assumes "k \<notin> set (map fst acc)" and "vs \<noteq> []"
  shows "foldl (\<lambda>a (k, v). Add a k v) acc (map (Pair k) vs) = acc @ [(k, vs)]"
proof -
  from assms(2) obtain v vs' where vs: "vs = v # vs'" by (cases vs) auto
  show ?thesis
    using foldl_Add_same [OF assms(1), of "[v]" vs'] assms(1)
    by (simp add: vs Add_fresh)
qed

lemma foldl_Add_flatten:
  assumes "distinct (map fst acc @ map fst m)" and "[] \<notin> set (map snd m)"
  shows "foldl (\<lambda>a (k, v). Add a k v) acc (flatten m) = acc @ m"
  using assms
proof (induction m arbitrary: acc)
  case Nil
  show ?case by (simp add: flatten_def)
next
  case (Cons a m)
  obtain k vs where a: "a = (k, vs)" by (cases a)
  from Cons.prems a have k: "k \<notin> set (map fst acc)" and vs: "vs \<noteq> []" by auto
  have "foldl (\<lambda>a (k, v). Add a k v) acc (flatten (a # m)) =
          foldl (\<lambda>a (k, v). Add a k v) (acc @ [(k, vs)]) (flatten m)"
    by (simp add: flatten_def a foldl_Add_key [OF k vs])
  also have "\<dots> = (acc @ [(k, vs)]) @ m"
    using Cons.prems a by (intro Cons.IH) auto
  finally show ?case by (simp add: a)
qed

lemma Encode_flatten: "Encode m = Join (map encodePair (flatten (sort_key fst m))) ''&''"
  by (simp add: Encode_def flatten_def encodePair_def map_concat comp_def case_prod_unfold)

lemma ParseQuery_Encode:
  assumes "distinct (map fst m)" and "[] \<notin> set (map snd m)"
  shows "ParseQuery (Encode m) = sort_key fst m"
proof -
  have "mset (map fst (sort_key fst m)) = mset (map fst m)"
    by simp
  with assms(1) have "distinct (map fst (sort_key fst m))"
    by (metis mset_eq_imp_distinct_iff)
  moreover from assms(2) have "[] \<notin> set (map snd (sort_key fst m))"
    by simp
  ultimately show ?thesis
    using foldl_Add_flatten [of "[]" "sort_key fst m"]
    by (simp add: ParseQuery_def Encode_flatten parseQuery_Join)
qed

lemma Add_nonempty:
  "[] \<notin> set (map snd m) \<Longrightarrow> [] \<notin> set (map snd (Add m key val))"
proof (induction m)
  case Nil
  show ?case by simp
next
  case (Cons a m)
  obtain k' vs where a: "a = (k', vs)" by (cases a)
  show ?case
  proof (cases "k' = key")
    case True
    with a Cons.prems show ?thesis by simp
  next
    case False
    with a Cons show ?thesis by simp
  qed
qed

lemma parseQuery_invariant:
  assumes "\<And>m k v. P m \<Longrightarrow> P (Add m k v)" and "P m"
  shows "P (parseQuery m query)"
  using assms(2)
proof (induction m query rule: parseQuery.induct)
  case (1 m query)
  show ?case
  proof (cases "query = []")
    case True
    with 1 show ?thesis by (simp add: parseQuery.simps)
  next
    case False
    obtain key rest where c: "Cut query (CHR ''&'') = (key, rest)" by force
    obtain k v where d: "Cut key (CHR ''='') = (k, v)" by force
    note ih = "1.IH" [OF False refl c [symmetric]]
    show ?thesis
      using False c d "1.prems" ih assms(1)
      by (subst parseQuery.simps) (auto split: option.splits)
  qed
qed

lemma parseQuery_nonempty:
  assumes "[] \<notin> set (map snd m)"
  shows "[] \<notin> set (map snd (parseQuery m query))"
proof (rule parseQuery_invariant [where P = "\<lambda>m. [] \<notin> set (map snd m)"])
  fix m' :: Values and k v
  assume "[] \<notin> set (map snd m')"
  then show "[] \<notin> set (map snd (Add m' k v))"
    by (rule Add_nonempty)
next
  show "[] \<notin> set (map snd m)" by fact
qed

lemma Set_keys:
  "map fst (Set m k v) = (if k \<in> set (map fst m) then map fst m else map fst m @ [k])"
proof (induction m)
  case Nil
  show ?case by simp
next
  case (Cons a m)
  obtain k' vs where a: "a = (k', vs)" by (cases a)
  show ?case
  proof (cases "k' = k")
    case True
    with a show ?thesis by simp
  next
    case False
    with a Cons show ?thesis by simp
  qed
qed

lemma Set_nonempty:
  "[] \<notin> set (map snd m) \<Longrightarrow> [] \<notin> set (map snd (Set m key val))"
proof (induction m)
  case Nil
  show ?case by simp
next
  case (Cons a m)
  obtain k' vs where a: "a = (k', vs)" by (cases a)
  show ?case
  proof (cases "k' = key")
    case True
    with a Cons.prems show ?thesis by simp
  next
    case False
    with a Cons show ?thesis by simp
  qed
qed

lemma map_of_Set: "map_of (Set m k v) = (map_of m)(k \<mapsto> [v])"
  by (induction m) (auto simp: fun_eq_iff)

text \<open>
  Claim C9. The URL that \<open>checkAppend\<close> requests differs from the parsed target in its
  query only. The new query is the text that \<^verbatim>\<open>Encode\<close> writes for the parsed query
  with the value list of \<open>p\<close> replaced by the single value \<open>Get q p @ payload\<close>, the
  first original value of \<open>p\<close> followed by the payload: the pairs
  \<open>QueryEscape k = QueryEscape v\<close>, joined by \<open>&\<close>, with the names in sorted order.
  Parsed again, it gives the names in sorted order, \<open>p\<close> with that single value, and
  every other parameter with all its values.
\<close>

theorem probe_query:
  "Other (probeURL u p payload) = Other u \<and>
   Fragment (probeURL u p payload) = Fragment u \<and>
   ParseQuery (RawQuery (probeURL u p payload)) =
     sort_key fst (Set (Query u) p (Get (Query u) p @ payload)) \<and>
   sorted (map fst (ParseQuery (RawQuery (probeURL u p payload)))) \<and>
   map_of (ParseQuery (RawQuery (probeURL u p payload))) =
     (map_of (Query u))(p \<mapsto> [Get (Query u) p @ payload]) \<and>
   (map_of (Query u) p = Some (x # xs) \<longrightarrow> Get (Query u) p = x) \<and>
   RawQuery (probeURL u p payload) =
     Join (map (\<lambda>(k, v). QueryEscape k @ ''='' @ QueryEscape v)
            (concat (map (\<lambda>(k, vs). map (Pair k) vs)
               (sort_key fst (Set (Query u) p (Get (Query u) p @ payload)))))) ''&''"
proof -
  let ?q = "Query u"
  let ?q' = "Set ?q p (Get ?q p @ payload)"
  have raw: "RawQuery (probeURL u p payload) = Encode ?q'"
    by (simp add: probeURL_def Let_def)
  have d: "distinct (map fst ?q)"
    by (simp add: Query_def ParseQuery_distinct)
  have n: "[] \<notin> set (map snd ?q)"
    using parseQuery_nonempty [of "[]" "RawQuery u"] by (simp add: Query_def ParseQuery_def)
  from d have d': "distinct (map fst ?q')"
    by (simp add: Set_keys)
  from n have n': "[] \<notin> set (map snd ?q')"
    by (rule Set_nonempty)
  have rt: "ParseQuery (Encode ?q') = sort_key fst ?q'"
    using d' n' by (rule ParseQuery_Encode)
  have "mset (map fst (sort_key fst ?q')) = mset (map fst ?q')"
    by simp
  with d' have ds: "distinct (map fst (sort_key fst ?q'))"
    by (metis mset_eq_imp_distinct_iff)
  have "map_of (sort_key fst ?q') = map_of ?q'"
    using ds d' by (simp add: map_of_inject_set)
  then have mo: "map_of (ParseQuery (Encode ?q')) = (map_of ?q)(p \<mapsto> [Get ?q p @ payload])"
    by (simp add: rt map_of_Set)
  have srt: "sorted (map fst (sort_key fst ?q'))"
    by (rule sorted_sort_key)
  have enc: "Encode ?q' =
     Join (map (\<lambda>(k, v). QueryEscape k @ ''='' @ QueryEscape v)
            (concat (map (\<lambda>(k, vs). map (Pair k) vs) (sort_key fst ?q')))) ''&''"
    by (simp add: Encode_flatten flatten_def encodePair_def [abs_def] case_prod_unfold)
  show ?thesis
    unfolding raw
    using rt mo srt enc
    by (simp add: probeURL_def Let_def Get_def)
qed

theorem probe_query_witness:
  "Get (Query \<lparr>Other = ''http://x/a'', RawQuery = ''z=1&q=a+b&q=c&m=%3C'', Fragment = []\<rparr>) ''q'' = ''a b'' \<and>
   ParseQuery (RawQuery (probeURL \<lparr>Other = ''http://x/a'', RawQuery = ''z=1&q=a+b&q=c&m=%3C'', Fragment = []\<rparr>
                 ''q'' ''aprefix<asuffix'')) =
     [(''m'', [''<'']), (''q'', [''a baprefix<asuffix'']), (''z'', [''1''])]"
proof -
  let ?u = "\<lparr>Other = ''http://x/a'', RawQuery = ''z=1&q=a+b&q=c&m=%3C'', Fragment = []\<rparr>"
  have h: "map_of (Query ?u) ''q'' = Some (''a b'' # [''c''])"
    by code_simp
  have s: "sort_key fst (Set (Query ?u) ''q'' (Get (Query ?u) ''q'' @ ''aprefix<asuffix'')) =
             [(''m'', [''<'']), (''q'', [''a baprefix<asuffix'']), (''z'', [''1''])]"
    by code_simp
  note t = probe_query [of ?u "''q''" "''aprefix<asuffix''" "''a b''" "[''c'']"]
  from t h have g: "Get (Query ?u) ''q'' = ''a b''"
    by blast
  from t have "ParseQuery (RawQuery (probeURL ?u ''q'' ''aprefix<asuffix'')) =
      sort_key fst (Set (Query ?u) ''q'' (Get (Query ?u) ''q'' @ ''aprefix<asuffix''))"
    by blast
  then have "ParseQuery (RawQuery (probeURL ?u ''q'' ''aprefix<asuffix'')) =
      [(''m'', [''<'']), (''q'', [''a baprefix<asuffix'']), (''z'', [''1''])]"
    using s by (rule trans)
  with g show ?thesis
    by (rule conjI)
qed

section \<open>Properties of the line reader\<close>

lemma spaces_nonempty: "w \<in> set spaces \<Longrightarrow> w \<noteq> []"
  by (auto simp: spaces_def)

lemma spaces_length: "w \<in> set spaces \<Longrightarrow> length w = rune_len (hd w)"
  by (auto simp: spaces_def rune_len_def)

lemma spaces_prefix_free:
  assumes "w \<in> set spaces" and "w' \<in> set spaces" and "prefix w w'"
  shows "w = w'"
proof -
  from assms(1,2) have ne: "w \<noteq> []" "w' \<noteq> []"
    by (auto dest: spaces_nonempty)
  with assms(3) have "hd w = hd w'"
    by (cases w; cases w') auto
  with assms(1,2) have "length w = length w'"
    by (simp add: spaces_length)
  with assms(3) show ?thesis
    by (auto simp: prefix_def)
qed

lemma whitespace_only_append:
  "whitespace_only a \<Longrightarrow> whitespace_only b \<Longrightarrow> whitespace_only (a @ b)"
  by (induction rule: whitespace_only.induct) (auto intro: whitespace_only.intros)

lemma whitespace_only_rune: "w \<in> set spaces \<Longrightarrow> whitespace_only w"
  using whitespace_only.Rune [of w "[]"] whitespace_only.Nil by simp

lemma leadingSpace_Some:
  "leadingSpace s = Some n \<Longrightarrow> \<exists>w \<in> set spaces. n = length w \<and> s = w @ drop n s"
proof -
  assume "leadingSpace s = Some n"
  then obtain w where w: "find (\<lambda>w. prefix w s) spaces = Some w" and n: "n = length w"
    by (auto simp: leadingSpace_def)
  from find_SomeD [OF w] have "prefix w s" "w \<in> set spaces" by auto
  with n show ?thesis by (auto simp: prefix_def)
qed

lemma leadingSpace_None:
  "leadingSpace s = None \<longleftrightarrow> (\<forall>w \<in> set spaces. \<not> prefix w s)"
  by (auto simp: leadingSpace_def find_None_iff)

lemma trailingSpace_Some:
  "trailingSpace s = Some n \<Longrightarrow> \<exists>w \<in> set spaces. n = length w \<and> s = take (length s - n) s @ w"
proof -
  assume "trailingSpace s = Some n"
  then obtain w where w: "find (\<lambda>w. suffix w s) spaces = Some w" and n: "n = length w"
    by (auto simp: trailingSpace_def)
  from find_SomeD [OF w] have "suffix w s" "w \<in> set spaces" by auto
  with n show ?thesis by (auto simp: suffix_def)
qed

lemma trailingSpace_None:
  "trailingSpace s = None \<longleftrightarrow> (\<forall>w \<in> set spaces. \<not> suffix w s)"
  by (auto simp: trailingSpace_def find_None_iff)

lemma TrimLeft_decomp:
  "\<exists>a. whitespace_only a \<and> s = a @ TrimLeft s"
proof (induction s rule: TrimLeft.induct)
  case (1 s)
  show ?case
  proof (cases "leadingSpace s")
    case None
    then show ?thesis
      using whitespace_only.Nil by (subst TrimLeft.simps) auto
  next
    case (Some n)
    from leadingSpace_Some [OF Some] obtain w where
      w: "w \<in> set spaces" "n = length w" "s = w @ drop n s" by blast
    from "1.IH" [OF Some] obtain a where
      a: "whitespace_only a" "drop n s = a @ TrimLeft (drop n s)" by blast
    have t: "TrimLeft s = TrimLeft (drop n s)"
      using Some by (subst TrimLeft.simps) simp
    from w(3) a(2) have "s = (w @ a) @ TrimLeft (drop n s)"
      by (metis append_assoc)
    moreover from w(1) a(1) have "whitespace_only (w @ a)"
      by (rule whitespace_only.Rune)
    ultimately show ?thesis unfolding t by blast
  qed
qed

lemma TrimLeft_no_leading: "leadingSpace (TrimLeft s) = None"
proof (induction s rule: TrimLeft.induct)
  case (1 s)
  show ?case
  proof (cases "leadingSpace s")
    case None
    then show ?thesis by (subst TrimLeft.simps) simp
  next
    case (Some n)
    with "1.IH" [OF Some] show ?thesis by (subst TrimLeft.simps) simp
  qed
qed

lemma TrimRight_decomp:
  "\<exists>b. whitespace_only b \<and> s = TrimRight s @ b"
proof (induction s rule: TrimRight.induct)
  case (1 s)
  show ?case
  proof (cases "trailingSpace s")
    case None
    then show ?thesis
      using whitespace_only.Nil by (subst TrimRight.simps) auto
  next
    case (Some n)
    from trailingSpace_Some [OF Some] obtain w where
      w: "w \<in> set spaces" "n = length w" "s = take (length s - n) s @ w" by blast
    from "1.IH" [OF Some] obtain b where
      b: "whitespace_only b"
         "take (length s - n) s = TrimRight (take (length s - n) s) @ b" by blast
    have t: "TrimRight s = TrimRight (take (length s - n) s)"
      using Some by (subst TrimRight.simps) simp
    from w(3) b(2) have "s = TrimRight (take (length s - n) s) @ (b @ w)"
      by (metis append_assoc)
    moreover from b(1) w(1) have "whitespace_only (b @ w)"
      by (simp add: whitespace_only_append whitespace_only_rune)
    ultimately show ?thesis unfolding t by blast
  qed
qed

lemma TrimRight_no_trailing: "trailingSpace (TrimRight s) = None"
proof (induction s rule: TrimRight.induct)
  case (1 s)
  show ?case
  proof (cases "trailingSpace s")
    case None
    then show ?thesis by (subst TrimRight.simps) simp
  next
    case (Some n)
    with "1.IH" [OF Some] show ?thesis by (subst TrimRight.simps) simp
  qed
qed

lemma TrimRight_prefix: "prefix (TrimRight s) s"
  using TrimRight_decomp [of s] by (auto simp: prefix_def)

lemma TrimSpace_no_leading: "leadingSpace (TrimSpace s) = None"
proof -
  have "\<not> prefix w (TrimRight (TrimLeft s))" if "w \<in> set spaces" for w
  proof
    assume "prefix w (TrimRight (TrimLeft s))"
    then have "prefix w (TrimLeft s)"
      using TrimRight_prefix [of "TrimLeft s"] by (rule prefix_order.trans)
    with that TrimLeft_no_leading [of s] show False
      by (simp add: leadingSpace_None)
  qed
  then show ?thesis by (simp add: TrimSpace_def leadingSpace_None)
qed

lemma TrimSpace_decomp:
  "\<exists>a b. whitespace_only a \<and> whitespace_only b \<and> s = a @ TrimSpace s @ b"
proof -
  from TrimLeft_decomp [of s] obtain a where a: "whitespace_only a" "s = a @ TrimLeft s"
    by blast
  from TrimRight_decomp [of "TrimLeft s"] obtain b where
    b: "whitespace_only b" "TrimLeft s = TrimRight (TrimLeft s) @ b" by blast
  from a(2) b(2) have "s = a @ TrimSpace s @ b"
    unfolding TrimSpace_def by (metis append_assoc)
  with a(1) b(1) show ?thesis by blast
qed

lemma leadingSpace_rune:
  assumes "w \<in> set spaces"
  shows "leadingSpace (w @ s) = Some (length w)"
proof (cases "leadingSpace (w @ s)")
  case None
  with assms show ?thesis by (auto simp: leadingSpace_None)
next
  case (Some n)
  from leadingSpace_Some [OF Some] obtain w' where
    w': "w' \<in> set spaces" "n = length w'" "w @ s = w' @ drop n (w @ s)" by blast
  from w'(3) have "prefix w w' \<or> prefix w' w"
    by (metis append_eq_append_conv2 prefixI)
  with assms w'(1) have "w = w'"
    using spaces_prefix_free by blast
  with Some w'(2) show ?thesis by simp
qed

lemma whitespace_only_TrimLeft: "whitespace_only s \<Longrightarrow> TrimLeft s = []"
proof (induction rule: whitespace_only.induct)
  case Nil
  have "leadingSpace [] = None"
    by (auto simp: leadingSpace_None dest: spaces_nonempty)
  then show ?case by (subst TrimLeft.simps) simp
next
  case (Rune w s)
  from leadingSpace_rune [OF Rune.hyps(1)] Rune.IH show ?case
    by (subst TrimLeft.simps) simp
qed

lemma TrimRight_Nil: "TrimRight [] = []"
proof -
  have "trailingSpace [] = None"
    by (auto simp: trailingSpace_None dest: spaces_nonempty)
  then show ?thesis by (subst TrimRight.simps) simp
qed

lemma TrimSpace_empty_iff: "TrimSpace s = [] \<longleftrightarrow> whitespace_only s"
proof
  assume "TrimSpace s = []"
  with TrimSpace_decomp [of s] show "whitespace_only s"
    by (auto simp: whitespace_only_append)
next
  assume "whitespace_only s"
  then show "TrimSpace s = []"
    by (simp add: TrimSpace_def whitespace_only_TrimLeft TrimRight_Nil)
qed

text \<open>
  Claim C10. The lines sent to the workers are, in input order, the \<open>TrimSpace\<close> of
  every input line that is not white space only, and the workers are run on exactly
  these strings. \<open>TrimSpace\<close> of a line is the line without a run of white space at
  its start and one at its end, and it neither starts nor ends with a white-space rune.
  A line of white space only is dropped, exactly as the empty line is; every other line
  is sent, trimmed, in its place.
\<close>

theorem reader_trims:
  "reader lines = map TrimSpace (filter (\<lambda>raw. \<not> whitespace_only raw) lines) \<and>
   emitted e lines =
     concat (map (\<lambda>raw. worker e (TrimSpace raw))
               (filter (\<lambda>raw. \<not> whitespace_only raw) lines)) \<and>
   (\<exists>a b. whitespace_only a \<and> whitespace_only b \<and> raw = a @ TrimSpace raw @ b) \<and>
   (\<forall>w \<in> set spaces. \<not> prefix w (TrimSpace raw) \<and> \<not> suffix w (TrimSpace raw)) \<and>
   (TrimSpace raw = [] \<longleftrightarrow> whitespace_only raw) \<and>
   (\<not> whitespace_only raw \<longrightarrow>
      reader (xs @ raw # ys) = reader xs @ TrimSpace raw # reader ys) \<and>
   (whitespace_only raw \<longrightarrow>
      reader (xs @ raw # ys) = reader (xs @ [] # ys) \<and>
      reader (xs @ raw # ys) = reader (xs @ ys)) \<and>
   (\<forall>l \<in> set (reader lines).
      l \<noteq> [] \<and>
      (\<forall>w \<in> set spaces. \<not> prefix w l \<and> \<not> suffix w l) \<and>
      (\<exists>raw \<in> set lines. \<exists>a b. whitespace_only a \<and> whitespace_only b \<and> raw = a @ l @ b))"
proof -
  have r: "reader ls = map TrimSpace (filter (\<lambda>raw. \<not> whitespace_only raw) ls)" for ls
    by (simp add: reader_def filter_map comp_def TrimSpace_empty_iff)
  have e: "emitted e lines =
     concat (map (\<lambda>raw. worker e (TrimSpace raw))
               (filter (\<lambda>raw. \<not> whitespace_only raw) lines))"
    by (simp add: emitted_def r comp_def)
  have d: "\<exists>a b. whitespace_only a \<and> whitespace_only b \<and> s = a @ TrimSpace s @ b" for s
    by (rule TrimSpace_decomp)
  have n: "\<forall>w \<in> set spaces. \<not> prefix w (TrimSpace s) \<and> \<not> suffix w (TrimSpace s)" for s
    using TrimSpace_no_leading [of s] TrimRight_no_trailing [of "TrimLeft s"]
    by (simp add: leadingSpace_None trailingSpace_None TrimSpace_def)
  have i: "TrimSpace raw = [] \<longleftrightarrow> whitespace_only raw"
    by (rule TrimSpace_empty_iff)
  have k: "reader (xs @ raw # ys) = reader xs @ TrimSpace raw # reader ys"
    if "\<not> whitespace_only raw"
    using that by (simp add: r)
  have s: "reader (xs @ raw # ys) = reader (xs @ [] # ys) \<and>
      reader (xs @ raw # ys) = reader (xs @ ys)" if "whitespace_only raw"
    using that whitespace_only.Nil by (simp add: r)
  have a: "l \<noteq> [] \<and>
      (\<forall>w \<in> set spaces. \<not> prefix w l \<and> \<not> suffix w l) \<and>
      (\<exists>raw \<in> set lines. \<exists>a b. whitespace_only a \<and> whitespace_only b \<and> raw = a @ l @ b)"
    if "l \<in> set (reader lines)" for l
  proof -
    from that obtain raw' where raw': "raw' \<in> set lines" "l = TrimSpace raw'" "l \<noteq> []"
      by (auto simp: reader_def)
    with d [of raw'] n [of raw'] show ?thesis by blast
  qed
  from r [of lines] e d [of raw] n [of raw] i k s a show ?thesis
    by blast
qed

theorem reader_trims_witness:
  "reader ([''a''] @ ([CHR 0x20, CHR 0x09] @ ''http://x/a?q=1'' @ [CHR 0xC2, CHR 0xA0, CHR 0x0D])
             # [''b'']) =
     [''a'', ''http://x/a?q=1'', ''b''] \<and>
   reader ([''a''] @ [CHR 0x20, CHR 0xC2, CHR 0xA0, CHR 0x09] # [''b'']) = reader ([''a''] @ [''b''])"
proof -
  let ?raw = "[CHR 0x20, CHR 0x09] @ ''http://x/a?q=1'' @ [CHR 0xC2, CHR 0xA0, CHR 0x0D]"
  let ?ws = "[CHR 0x20, CHR 0xC2, CHR 0xA0, CHR 0x09]"
  have t: "TrimSpace ?raw = ''http://x/a?q=1''"
    by code_simp
  note th = reader_trims [where raw = ?raw and xs = "[''a'']" and ys = "[''b'']"]
  from th t have "\<not> whitespace_only ?raw"
    by auto
  with th have "reader ([''a''] @ ?raw # [''b'']) = reader [''a''] @ TrimSpace ?raw # reader [''b'']"
    by blast
  moreover have "reader [''a''] = [''a'']" "reader [''b''] = [''b'']"
    by code_simp+
  ultimately have 1: "reader ([''a''] @ ?raw # [''b'']) = [''a'', ''http://x/a?q=1'', ''b'']"
    using t by simp
  have "whitespace_only ([CHR 0x20] @ [CHR 0xC2, CHR 0xA0] @ [CHR 0x09] @ [])"
    by (intro whitespace_only.intros) (simp_all add: spaces_def)
  then have w: "whitespace_only ?ws"
    by simp
  from reader_trims [where raw = ?ws and xs = "[''a'']" and ys = "[''b'']"] w
  have 2: "reader ([''a''] @ ?ws # [''b'']) = reader ([''a''] @ [''b''])"
    by blast
  from 1 2 show ?thesis by (rule conjI)
qed

end
